theory Spec2Isabelle
  imports Main "HOL-Library.Sublist"
begin

section \<open>Python strings and the regular expressions of the script\<close>

text \<open>
  The script \<^verbatim>\<open>split_multitexts_on_same_page.py\<close> works on Python 3 \<^verbatim>\<open>str\<close> values, which are
  sequences of Unicode code points (the texts are Arabic). A string is therefore a list of code
  points, not of bytes. \<open>asc\<close> turns an ASCII literal into such a list; the Arabic words of
  the patterns are written as their code points.
\<close>

type_synonym pystr = "nat list"

definition asc :: "string \<Rightarrow> pystr" where
  "asc s = map of_char s"

definition LF :: nat where "LF = 10"
definition CR :: nat where "CR = 13"

text \<open>The word \<^verbatim>\<open>U+062D U+0627 U+0634 U+064A U+0629\<close> of the commentary tags.\<close>

definition hashiya :: pystr where
  "hashiya = [1581, 1575, 1588, 1610, 1577]"

subsection \<open>Syntax of the patterns\<close>

text \<open>
  Every quantifier of every pattern in the script (\<^verbatim>\<open>[\r\n]*\<close>, \<^verbatim>\<open>[^P]+\<close>, \<^verbatim>\<open>\w+\<close>, \<^verbatim>\<open>.+\<close>,
  \<^verbatim>\<open>.*?\<close>, \<^verbatim>\<open>#?\<close>, ...) is applied to something that matches one character. The syntax below has
  exactly that: \<open>Rep m lo hi greedy\<close> repeats the one-character matcher \<open>m\<close> between \<open>lo\<close> and
  \<open>hi\<close> times (\<open>None\<close>: no upper bound), greedily or lazily.
\<close>

datatype cls = Chr nat | Rng nat nat | ClsWord | ClsSpace | ClsDigit

datatype cm = Dot | OneOf "cls list" | NoneOf "cls list"

datatype rx =
    Lit pystr
  | One cm
  | Rep cm nat "nat option" bool
  | Seq rx rx
  | Alt rx rx
  | Grp nat rx
  | Ahead rx
  | BOS
  | EOS

fun cat :: "rx list \<Rightarrow> rx" where
  "cat [] = Lit []"
| "cat [r] = r"
| "cat (r # rs) = Seq r (cat rs)"

definition many :: "cm \<Rightarrow> rx" where "many m = Rep m 0 None True"
definition many1 :: "cm \<Rightarrow> rx" where "many1 m = Rep m 1 None True"
definition few :: "cm \<Rightarrow> rx" where "few m = Rep m 0 None False"
definition few1 :: "cm \<Rightarrow> rx" where "few1 m = Rep m 1 None False"
definition opt :: "cm \<Rightarrow> rx" where "opt m = Rep m 0 (Some 1) True"
definition chr :: "nat \<Rightarrow> cm" where "chr c = OneOf [Chr c]"

text \<open>The number of capturing groups of a pattern.\<close>

fun ngroups :: "rx \<Rightarrow> nat" where
  "ngroups (Seq a b) = ngroups a + ngroups b"
| "ngroups (Alt a b) = ngroups a + ngroups b"
| "ngroups (Grp g r) = Suc (ngroups r)"
| "ngroups (Ahead r) = ngroups r"
| "ngroups _ = 0"

text \<open>Replacement templates of \<^verbatim>\<open>re.sub\<close>: literal text and group references.\<close>

datatype tmpl_item = TLit pystr | TGrp nat

subsection \<open>What the Python runtime supplies\<close>

text \<open>
  Two things the script relies on are not part of the repository: the Unicode character
  database behind \<^verbatim>\<open>\w\<close>, \<^verbatim>\<open>\s\<close>, \<^verbatim>\<open>\d\<close> and \<^verbatim>\<open>str.strip\<close>, and the parser that turns a
  pattern string (a key of \<^verbatim>\<open>texts_d\<close>, the file name used as a pattern) or a replacement string
  into its structure. Both are parameters. The classes are fixed on ASCII, where they are
  \<^verbatim>\<open>[a-zA-Z0-9_]\<close>, \<^verbatim>\<open>[ \t\n\r\f\v\x1c-\x1f]\<close> and \<^verbatim>\<open>[0-9]\<close>; the parameter decides above 127.
  \<open>re_parse\<close> and \<open>tmpl_parse\<close> give \<open>None\<close> for a string that \<^verbatim>\<open>re\<close> rejects with
  \<^verbatim>\<open>re.error\<close> (a replacement is checked against the groups of its pattern).
\<close>

record runtime =
  uni_word :: "nat \<Rightarrow> bool"
  uni_space :: "nat \<Rightarrow> bool"
  uni_digit :: "nat \<Rightarrow> bool"
  re_parse :: "pystr \<Rightarrow> rx option"
  tmpl_parse :: "rx \<Rightarrow> pystr \<Rightarrow> tmpl_item list option"

definition is_digit :: "runtime \<Rightarrow> nat \<Rightarrow> bool" where
  "is_digit rt c = (if c < 128 then 48 \<le> c \<and> c \<le> 57 else uni_digit rt c)"

definition is_space :: "runtime \<Rightarrow> nat \<Rightarrow> bool" where
  "is_space rt c =
     (if c < 128 then (9 \<le> c \<and> c \<le> 13) \<or> (28 \<le> c \<and> c \<le> 32) else uni_space rt c)"

definition is_word :: "runtime \<Rightarrow> nat \<Rightarrow> bool" where
  "is_word rt c =
     (if c < 128
      then (48 \<le> c \<and> c \<le> 57) \<or> (65 \<le> c \<and> c \<le> 90) \<or> (97 \<le> c \<and> c \<le> 122) \<or> c = 95
      else uni_word rt c)"

subsection \<open>Matching\<close>

fun in_cls :: "runtime \<Rightarrow> cls \<Rightarrow> nat \<Rightarrow> bool" where
  "in_cls rt (Chr a) c = (c = a)"
| "in_cls rt (Rng a b) c = (a \<le> c \<and> c \<le> b)"
| "in_cls rt ClsWord c = is_word rt c"
| "in_cls rt ClsSpace c = is_space rt c"
| "in_cls rt ClsDigit c = is_digit rt c"

text \<open>
  \<open>dotall\<close> is the flag \<^verbatim>\<open>re.DOTALL\<close>: without it \<^verbatim>\<open>.\<close> matches every character except the
  line feed.
\<close>

fun cm_ok :: "bool \<Rightarrow> runtime \<Rightarrow> cm \<Rightarrow> nat \<Rightarrow> bool" where
  "cm_ok dotall rt Dot c = (dotall \<or> c \<noteq> 10)"
| "cm_ok dotall rt (OneOf cs) c = list_ex (\<lambda>k. in_cls rt k c) cs"
| "cm_ok dotall rt (NoneOf cs) c = (\<not> list_ex (\<lambda>k. in_cls rt k c) cs)"

text \<open>
  \<^verbatim>\<open>re\<close> is a backtracking matcher. \<open>ms dotall rt r bos s\<close> lists every way in which \<open>r\<close>
  matches a prefix of the remaining input \<open>s\<close>, in the order in which backtracking tries them:
  each entry is the number of characters consumed and the groups captured (the latest capture
  first). \<open>bos\<close> says that \<open>s\<close> is the whole string (for \<^verbatim>\<open>\A\<close>). The head of the list is the
  match \<^verbatim>\<open>re\<close> reports. A lookahead is atomic and consumes nothing.
\<close>

type_synonym caps = "(nat \<times> pystr) list"

fun ms :: "bool \<Rightarrow> runtime \<Rightarrow> rx \<Rightarrow> bool \<Rightarrow> pystr \<Rightarrow> (nat \<times> caps) list" where
  "ms dotall rt (Lit l) bos s = (if take (length l) s = l then [(length l, [])] else [])"
| "ms dotall rt (One m) bos s =
     (case s of [] \<Rightarrow> [] | c # _ \<Rightarrow> if cm_ok dotall rt m c then [(1, [])] else [])"
| "ms dotall rt (Rep m lo hi greedy) bos s =
     (let n = length (takeWhile (cm_ok dotall rt m) s);
          n' = (case hi of None \<Rightarrow> n | Some h \<Rightarrow> min h n);
          ks = [lo..<Suc n']
      in map (\<lambda>k. (k, [])) (if greedy then rev ks else ks))"
| "ms dotall rt (Seq a b) bos s =
     concat (map (\<lambda>(n1, c1).
        map (\<lambda>(n2, c2). (n1 + n2, c2 @ c1)) (ms dotall rt b (bos \<and> n1 = 0) (drop n1 s)))
        (ms dotall rt a bos s))"
| "ms dotall rt (Alt a b) bos s = ms dotall rt a bos s @ ms dotall rt b bos s"
| "ms dotall rt (Grp g r) bos s = map (\<lambda>(n, c). (n, (g, take n s) # c)) (ms dotall rt r bos s)"
| "ms dotall rt (Ahead r) bos s =
     (case ms dotall rt r bos s of [] \<Rightarrow> [] | (n, c) # _ \<Rightarrow> [(0, c)])"
| "ms dotall rt BOS bos s = (if bos then [(0, [])] else [])"
| "ms dotall rt EOS bos s = (if s = [] then [(0, [])] else [])"

text \<open>
  The loop shared by \<^verbatim>\<open>re.sub\<close>, \<^verbatim>\<open>re.split\<close> and \<^verbatim>\<open>re.findall\<close> (Python 3.7 and later) searches
  for the leftmost match from the end of the previous one; after an empty match the next match
  at the same place must be non-empty. \<open>scan\<close> cuts the string into the characters between
  matches (\<open>Gap\<close>) and the matches (\<open>Hit\<close>, with the matched text and the captures); its third
  argument counts the characters still covered by the match just found.
\<close>

datatype tok = Gap nat | Hit pystr caps

fun scan :: "bool \<Rightarrow> runtime \<Rightarrow> rx \<Rightarrow> bool \<Rightarrow> nat \<Rightarrow> pystr \<Rightarrow> tok list" where
  "scan dotall rt r bos 0 [] =
     (case ms dotall rt r bos [] of [] \<Rightarrow> [] | (n, c) # _ \<Rightarrow> [Hit [] c])"
| "scan dotall rt r bos 0 (x # xs) =
     (case ms dotall rt r bos (x # xs) of
        [] \<Rightarrow> Gap x # scan dotall rt r False 0 xs
      | (n, c) # rest \<Rightarrow>
          if 0 < n then Hit (take n (x # xs)) c # scan dotall rt r False (n - 1) xs
          else Hit [] c #
            (case find (\<lambda>(n', c'). 0 < n') rest of
               None \<Rightarrow> Gap x # scan dotall rt r False 0 xs
             | Some (n', c') \<Rightarrow> Hit (take n' (x # xs)) c' # scan dotall rt r False (n' - 1) xs))"
| "scan dotall rt r bos (Suc k) (x # xs) = scan dotall rt r False k xs"
| "scan dotall rt r bos (Suc k) [] = []"

text \<open>The text of group \<open>g\<close>; a group that took no part in the match gives the empty string.\<close>

definition grp :: "caps \<Rightarrow> nat \<Rightarrow> pystr" where
  "grp c g = (case map_of c g of None \<Rightarrow> [] | Some t \<Rightarrow> t)"

fun expand :: "tmpl_item list \<Rightarrow> caps \<Rightarrow> pystr" where
  "expand [] c = []"
| "expand (TLit l # ts) c = l @ expand ts c"
| "expand (TGrp g # ts) c = grp c g @ expand ts c"

fun sub_toks :: "tmpl_item list \<Rightarrow> tok list \<Rightarrow> pystr" where
  "sub_toks tm [] = []"
| "sub_toks tm (Gap x # ts) = x # sub_toks tm ts"
| "sub_toks tm (Hit m c # ts) = expand tm c @ sub_toks tm ts"

definition re_sub :: "runtime \<Rightarrow> rx \<Rightarrow> tmpl_item list \<Rightarrow> pystr \<Rightarrow> pystr" where
  "re_sub rt r tm s = sub_toks tm (scan False rt r True 0 s)"

text \<open>
  \<^verbatim>\<open>re.split\<close>: the pieces between the matches, and after each piece the groups of the match
  that ended it.
\<close>

fun split_toks :: "nat \<Rightarrow> pystr \<Rightarrow> tok list \<Rightarrow> pystr list" where
  "split_toks g acc [] = [acc]"
| "split_toks g acc (Gap x # ts) = split_toks g (acc @ [x]) ts"
| "split_toks g acc (Hit m c # ts) = acc # map (grp c) [1..<Suc g] @ split_toks g [] ts"

definition re_split :: "runtime \<Rightarrow> rx \<Rightarrow> pystr \<Rightarrow> pystr list" where
  "re_split rt r s = split_toks (ngroups r) [] (scan False rt r True 0 s)"

text \<open>
  \<^verbatim>\<open>re.findall\<close>: for a pattern without groups the matched texts, with one group the texts of
  that group, with more groups tuples.
\<close>

datatype item = Str pystr | Tup "pystr list"

fun findall_toks :: "nat \<Rightarrow> tok list \<Rightarrow> item list" where
  "findall_toks g [] = []"
| "findall_toks g (Gap x # ts) = findall_toks g ts"
| "findall_toks g (Hit m c # ts) =
     (if g = 0 then Str m else if g = 1 then Str (grp c 1) else Tup (map (grp c) [1..<Suc g]))
     # findall_toks g ts"

definition re_findall :: "bool \<Rightarrow> runtime \<Rightarrow> rx \<Rightarrow> pystr \<Rightarrow> item list" where
  "re_findall dotall rt r s = findall_toks (ngroups r) (scan dotall rt r True 0 s)"


definition ch :: "char \<Rightarrow> cls" where "ch c = Chr (of_char c)"
definition rng :: "char \<Rightarrow> char \<Rightarrow> cls" where "rng a b = Rng (of_char a) (of_char b)"

text \<open>\<^verbatim>\<open>str.strip()\<close> removes the white space at both ends.\<close>

definition strip :: "runtime \<Rightarrow> pystr \<Rightarrow> pystr" where
  "strip rt s = rev (dropWhile (is_space rt) (rev (dropWhile (is_space rt) s)))"

section \<open>The cleaning transform\<close>

text \<open>
  The seven patterns of \<^verbatim>\<open>clean\<close>, in the order of the source (lines 24 to 35):
  \<^verbatim>\<open><[/a-zA-Z=\-_"' ]+>\<close>,
  \<^verbatim>\<open>(PageV[^P]+P\w+)[\r\n]*NO_PAGE_NUMBER\<close>,
  \<^verbatim>\<open>[\r\n]+#\s+[\r\n]+\<close>,
  \<^verbatim>\<open># Page\<close>,
  \<^verbatim>\<open>### \|.+[\r\n]+[# .]+[\r\n]+Page.+\<close>,
  \<^verbatim>\<open># ([([](?:bab|far'|fasl)[^\)\]]*[\)\]])\s*#?\<close> (the three Arabic section words) and
  \<^verbatim>\<open>### \| \[hashiya.+\<close>. None is compiled with a flag, so \<^verbatim>\<open>.\<close> stops at a line feed.
\<close>

definition crlf :: cm where "crlf = OneOf [Chr CR, Chr LF]"

definition html_tag_rx :: rx where
  "html_tag_rx = cat [Lit (asc ''<''),
     many1 (OneOf [ch CHR ''/'', rng CHR ''a'' CHR ''z'', rng CHR ''A'' CHR ''Z'', ch CHR ''='',
                   ch CHR ''-'', ch CHR ''_'', ch CHR 0x22, ch CHR 0x27, ch CHR '' '']),
     Lit (asc ''>'')]"

definition page_nopage_rx :: rx where
  "page_nopage_rx = cat [
     Grp 1 (cat [Lit (asc ''PageV''), many1 (NoneOf [ch CHR ''P'']), Lit (asc ''P''),
                 many1 (OneOf [ClsWord])]),
     many crlf, Lit (asc ''NO_PAGE_NUMBER'')]"

definition empty_par_rx :: rx where
  "empty_par_rx = cat [many1 crlf, Lit (asc ''#''), many1 (OneOf [ClsSpace]), many1 crlf]"

definition hash_page_rx :: rx where
  "hash_page_rx = Lit (asc ''# Page'')"

definition empty_sharh_rx :: rx where
  "empty_sharh_rx = cat [Lit (asc ''### |''), many1 Dot, many1 crlf,
     many1 (OneOf [ch CHR ''#'', ch CHR '' '', ch CHR ''.'']), many1 crlf,
     Lit (asc ''Page''), many1 Dot]"

definition subheading_rx :: rx where
  "subheading_rx = cat [Lit (asc ''# ''),
     Grp 1 (cat [One (OneOf [ch CHR ''('', ch CHR ''['']),
                 Alt (Lit [1576, 1575, 1576]) (Alt (Lit [1601, 1585, 1593]) (Lit [1601, 1589, 1604])),
                 many (NoneOf [ch CHR '')'', ch CHR '']'']),
                 One (OneOf [ch CHR '')'', ch CHR '']''])]),
     many (OneOf [ClsSpace]), opt (chr (of_char CHR ''#''))]"

definition hashiya_tag :: pystr where
  "hashiya_tag = asc ''### | ['' @ hashiya"

definition hashiya_tag_rx :: rx where
  "hashiya_tag_rx = cat [Lit hashiya_tag, many1 Dot]"

definition remove_hashiya :: "runtime \<Rightarrow> pystr \<Rightarrow> pystr" where
  "remove_hashiya rt text = re_sub rt hashiya_tag_rx [] text"

text \<open>The seven patterns, in the order in which \<^verbatim>\<open>clean\<close> applies them.\<close>

definition clean_patterns :: "rx list" where
  "clean_patterns = [html_tag_rx, page_nopage_rx, empty_par_rx, hash_page_rx, empty_sharh_rx,
     subheading_rx, hashiya_tag_rx]"

definition clean :: "runtime \<Rightarrow> pystr \<Rightarrow> pystr" where
  "clean rt text0 =
     (let text1 = re_sub rt html_tag_rx [] text0;
          text2 = re_sub rt page_nopage_rx [TGrp 1] text1;
          text3 = re_sub rt empty_par_rx [TLit [LF]] text2;
          text4 = re_sub rt hash_page_rx [TLit (asc ''Page'')] text3;
          text5 = re_sub rt empty_sharh_rx [] text4;
          text6 = re_sub rt subheading_rx [TLit (asc ''### | ''), TGrp 1, TLit (LF # asc ''# '')] text5;
          text7 = remove_hashiya rt text6
      in strip rt text7)"

section \<open>Splitting a file into its works\<close>

text \<open>
  A work descriptor is a value of the dictionary \<^verbatim>\<open>texts_d\<close>: the file name \<^verbatim>\<open>"fn"\<close> and the list
  \<^verbatim>\<open>"text"\<close> of fragments. The dictionary itself, whose keys are pattern strings, is the list of its
  entries in insertion order; as in the \<^verbatim>\<open>__main__\<close> block of the script, every entry has a list
  of its own.

  Files are a map from paths to contents (the characters that the UTF-8 bytes of the file
  decode to), together with the list of the writes made so far, each with the path and the
  characters stored; the model has no directories or permissions, so a write always succeeds.
  The script is modelled as it runs on a POSIX system: \<^verbatim>\<open>os.path.join\<close> is \<^verbatim>\<open>posixpath.join\<close> and
  \<^verbatim>\<open>os.linesep\<close> is the line feed. All files are opened in text mode with the default
  \<^verbatim>\<open>newline=None\<close>: on reading, every \<^verbatim>\<open>\r\n\<close> and every other \<^verbatim>\<open>\r\<close> of the file arrives as
  \<^verbatim>\<open>\n\<close>; on writing, every \<^verbatim>\<open>\n\<close> is stored as \<^verbatim>\<open>os.linesep\<close>.
\<close>

record desc =
  d_fn :: pystr
  d_text :: "pystr list"

type_synonym texts_d = "(pystr \<times> desc) list"

datatype error = ValueError | TypeError | FileNotFoundError | ReError

datatype outcome = Raised error | Returned texts_d

record io =
  files :: "pystr \<rightharpoonup> pystr"
  written :: "(pystr \<times> pystr) list"

text \<open>
  \<^verbatim>\<open>os.linesep\<close>, and what writing in text mode stores: the text with every line feed turned
  into \<^verbatim>\<open>os.linesep\<close>.
\<close>

definition linesep :: pystr where
  "linesep = [LF]"

definition to_linesep :: "pystr \<Rightarrow> pystr" where
  "to_linesep s = concat (map (\<lambda>c. if c = LF then linesep else [c]) s)"

text \<open>\<^verbatim>\<open>open(p, mode="w", encoding="utf-8").write(c)\<close>.\<close>

definition write_file :: "pystr \<Rightarrow> pystr \<Rightarrow> io \<Rightarrow> io" where
  "write_file p c w =
     w\<lparr>files := (files w)(p \<mapsto> to_linesep c), written := written w @ [(p, to_linesep c)]\<rparr>"

text \<open>What reading in text mode makes of the characters of a file.\<close>

fun universal_newlines :: "pystr \<Rightarrow> pystr" where
  "universal_newlines [] = []"
| "universal_newlines [c] = [if c = CR then LF else c]"
| "universal_newlines (c # d # cs) =
     (if c = CR \<and> d = LF then LF # universal_newlines cs
      else if c = CR then LF # universal_newlines (d # cs)
      else c # universal_newlines (d # cs))"

text \<open>\<^verbatim>\<open>open(p, mode="r", encoding="utf-8").read()\<close>; \<open>None\<close> when there is no such file.\<close>

definition read_text :: "io \<Rightarrow> pystr \<Rightarrow> pystr option" where
  "read_text w p = map_option universal_newlines (files w p)"

definition META :: pystr where
  "META = asc ''#META#Header#End#''"

definition NO_PAGE_NUMBER :: pystr where
  "NO_PAGE_NUMBER = LF # asc ''NO_PAGE_NUMBER'' @ [LF]"

text \<open>The patterns \<^verbatim>\<open> *ms\d+ *\<close>, \<^verbatim>\<open>([\r\n]*PageV[^P]+P[\w]+[\r\n]*)\<close> and \<^verbatim>\<open>[/\\]\<close>.\<close>

definition milestone_rx :: rx where
  "milestone_rx = cat [many (chr 32), Lit (asc ''ms''), many1 (OneOf [ClsDigit]), many (chr 32)]"

definition page_rx :: rx where
  "page_rx = Grp 1 (cat [many crlf, Lit (asc ''PageV''), many1 (NoneOf [ch CHR ''P'']),
     Lit (asc ''P''), many1 (OneOf [ClsWord]), many crlf])"

definition sep_rx :: rx where
  "sep_rx = One (OneOf [ch CHR ''/'', ch CHR 0x5C])"

text \<open>
  Lines 75 to 78: the first element of \<^verbatim>\<open>re.findall(k, page, flags=re.DOTALL)\<close>; the bare
  \<^verbatim>\<open>except\<close> turns a pattern that does not compile and an empty result into \<^verbatim>\<open>""\<close>.
\<close>

definition first_match :: "runtime \<Rightarrow> pystr \<Rightarrow> pystr \<Rightarrow> item" where
  "first_match rt k page =
     (case re_parse rt k of
        None \<Rightarrow> Str []
      | Some r \<Rightarrow> (case re_findall True rt r page of [] \<Rightarrow> Str [] | t # _ \<Rightarrow> t))"

text \<open>Line 79: \<^verbatim>\<open>t+page_no\<close> is a \<^verbatim>\<open>TypeError\<close> when \<^verbatim>\<open>t\<close> is a tuple.\<close>

fun append_fragment :: "item \<Rightarrow> pystr \<Rightarrow> desc \<Rightarrow> error + desc" where
  "append_fragment (Str t) page_no d = Inr (d\<lparr>d_text := d_text d @ [t @ page_no]\<rparr>)"
| "append_fragment (Tup ts) page_no d = Inl TypeError"

fun each_text :: "runtime \<Rightarrow> pystr \<Rightarrow> pystr \<Rightarrow> texts_d \<Rightarrow> error + texts_d" where
  "each_text rt page page_no [] = Inr []"
| "each_text rt page page_no ((k, d) # kds) =
     (case append_fragment (first_match rt k page) page_no d of
        Inl e \<Rightarrow> Inl e
      | Inr d' \<Rightarrow>
          (case each_text rt page page_no kds of
             Inl e \<Rightarrow> Inl e
           | Inr kds' \<Rightarrow> Inr ((k, d') # kds')))"

text \<open>Lines 69 to 72: \<^verbatim>\<open>pages[i+1]\<close>, or the sentinel when the index is out of range.\<close>

definition page_no_at :: "pystr list \<Rightarrow> nat \<Rightarrow> pystr" where
  "page_no_at pages i = (if i + 1 < length pages then pages ! (i + 1) else NO_PAGE_NUMBER)"

text \<open>Lines 67 to 79; the third argument is the list of the indices still to visit.\<close>

fun page_loop :: "runtime \<Rightarrow> pystr list \<Rightarrow> nat list \<Rightarrow> texts_d \<Rightarrow> error + texts_d" where
  "page_loop rt pages [] td = Inr td"
| "page_loop rt pages (i # ixs) td =
     (if \<not> prefix (asc ''Page'') (pages ! i)
      then (case each_text rt (pages ! i) (page_no_at pages i) td of
              Inl e \<Rightarrow> Inl e
            | Inr td' \<Rightarrow> page_loop rt pages ixs td')
      else page_loop rt pages ixs td)"

text \<open>\<^verbatim>\<open>os.path.join\<close> of two components, as \<^verbatim>\<open>posixpath\<close> defines it.\<close>

definition path_join :: "pystr \<Rightarrow> pystr \<Rightarrow> pystr" where
  "path_join a b =
     (if prefix (asc ''/'') b then b
      else if a = [] \<or> suffix (asc ''/'') a then a @ b
      else a @ asc ''/'' @ b)"

text \<open>
  Line 92, \<^verbatim>\<open>re.sub(uri, d["fn"], yml_str)\<close>: the file name is compiled as a pattern, and the
  replacement is taken literally unless it contains a backslash.
\<close>

definition sub_uri :: "runtime \<Rightarrow> pystr \<Rightarrow> pystr \<Rightarrow> pystr \<Rightarrow> pystr option" where
  "sub_uri rt uri repl yml_str =
     (case re_parse rt uri of
        None \<Rightarrow> None
      | Some r \<Rightarrow>
          (case (if 92 \<in> set repl then tmpl_parse rt r repl else Some [TLit repl]) of
             None \<Rightarrow> None
           | Some tm \<Rightarrow> Some (re_sub rt r tm yml_str)))"

text \<open>
  Lines 86 to 92. The \<^verbatim>\<open>.yml\<close> file is opened for writing, hence emptied, before \<^verbatim>\<open>re.sub\<close>
  runs.
\<close>

fun write_outputs ::
  "runtime \<Rightarrow> pystr \<Rightarrow> pystr \<Rightarrow> pystr \<Rightarrow> pystr \<Rightarrow> desc list \<Rightarrow> io \<Rightarrow> error option \<times> io" where
  "write_outputs rt outfolder header uri yml_str [] w = (None, w)"
| "write_outputs rt outfolder header uri yml_str (d # ds) w =
     (let outfp = path_join outfolder (d_fn d);
          w1 = write_file outfp (header @ concat (d_text d)) w
      in case sub_uri rt uri (d_fn d) yml_str of
           None \<Rightarrow> (Some ReError, write_file (outfp @ asc ''.yml'') [] w1)
         | Some y \<Rightarrow>
             write_outputs rt outfolder header uri yml_str ds
               (write_file (outfp @ asc ''.yml'') y w1))"

text \<open>Lines 100 to 107: every output file is read back, cleaned and written again.\<close>

fun clean_outputs :: "(pystr \<Rightarrow> pystr) \<Rightarrow> pystr \<Rightarrow> desc list \<Rightarrow> io \<Rightarrow> error option \<times> io" where
  "clean_outputs f outfolder [] w = (None, w)"
| "clean_outputs f outfolder (d # ds) w =
     (let fp = path_join outfolder (d_fn d)
      in case read_text w fp of
           None \<Rightarrow> (Some FileNotFoundError, w)
         | Some text \<Rightarrow> clean_outputs f outfolder ds (write_file fp (f text) w))"

text \<open>
  Lines 64 to 66: the milestones are removed and the body is split at the page markers. Lines 64
  to 79 together fill the fragment lists.
\<close>

definition split_pages :: "runtime \<Rightarrow> pystr \<Rightarrow> pystr list" where
  "split_pages rt text1 = re_split rt page_rx (re_sub rt milestone_rx [TLit (asc '' '')] text1)"

definition fill_texts :: "runtime \<Rightarrow> pystr \<Rightarrow> texts_d \<Rightarrow> error + texts_d" where
  "fill_texts rt text1 texts_d =
     (let pages = split_pages rt text1 in page_loop rt pages [0..<length pages] texts_d)"

text \<open>
  The function itself. The two character counts of lines 94 to 98 are only printed, by a
  function of another package (\<^verbatim>\<open>openiti.helper.ara.ar_cnt_file\<close>) that reads files and is taken
  to return; they are left out.
\<close>

definition split_multitext ::
  "runtime \<Rightarrow> pystr \<Rightarrow> pystr \<Rightarrow> texts_d \<Rightarrow> (pystr \<Rightarrow> pystr) option \<Rightarrow> io \<Rightarrow> outcome \<times> io" where
  "split_multitext rt fp outfolder texts_d clean_text w =
     (case read_text w fp of
        None \<Rightarrow> (Raised FileNotFoundError, w)
      | Some text \<Rightarrow>
          (case re_split rt (Lit META) text of
             [header0, text1] \<Rightarrow>
               (let header = header0 @ META @ [LF, LF]
                in case fill_texts rt text1 texts_d of
                     Inl e \<Rightarrow> (Raised e, w)
                   | Inr td \<Rightarrow>
                       (case read_text w (fp @ asc ''.yml'') of
                          None \<Rightarrow> (Raised FileNotFoundError, w)
                        | Some yml_str \<Rightarrow>
                            (let uri = last (re_split rt sep_rx fp)
                             in case write_outputs rt outfolder header uri yml_str (map snd td) w of
                                  (Some e, w') \<Rightarrow> (Raised e, w')
                                | (None, w') \<Rightarrow>
                                    (case clean_text of
                                       None \<Rightarrow> (Returned td, w')
                                     | Some f \<Rightarrow>
                                         (case clean_outputs f outfolder (map snd td) w' of
                                            (Some e, w'') \<Rightarrow> (Raised e, w'')
                                          | (None, w'') \<Rightarrow> (Returned td, w''))))))
           | _ \<Rightarrow> (Raised ValueError, w)))"

section \<open>Counting matches\<close>

fun tok_text :: "tok \<Rightarrow> pystr" where
  "tok_text (Gap x) = [x]"
| "tok_text (Hit m c) = m"

fun hits :: "tok list \<Rightarrow> nat" where
  "hits [] = 0"
| "hits (Gap x # ts) = hits ts"
| "hits (Hit m c # ts) = Suc (hits ts)"

text \<open>The number of page markers of a body: the matches of the page pattern that line 66 splits at.\<close>

definition count_markers :: "runtime \<Rightarrow> pystr \<Rightarrow> nat" where
  "count_markers rt text1 =
     hits (scan False rt page_rx True 0 (re_sub rt milestone_rx [TLit (asc '' '')] text1))"

text \<open>
  The occurrences of a word in a string, counted from the left without overlap (as \<^verbatim>\<open>str.count\<close>
  counts them); the second argument is the number of characters still inside the occurrence
  just counted.
\<close>

fun occurrences :: "pystr \<Rightarrow> nat \<Rightarrow> pystr \<Rightarrow> nat" where
  "occurrences m k [] = 0"
| "occurrences m (Suc k) (x # xs) = occurrences m k xs"
| "occurrences m 0 (x # xs) =
     (if prefix m (x # xs) then Suc (occurrences m (length m - 1) xs) else occurrences m 0 xs)"

text \<open>The indices that the loop of line 67 treats as content, and the text of a findall item.\<close>

definition content_ixs :: "pystr list \<Rightarrow> nat list" where
  "content_ixs pages = filter (\<lambda>i. \<not> prefix (asc ''Page'') (pages ! i)) [0..<length pages]"

fun item_text :: "item \<Rightarrow> pystr" where
  "item_text (Str t) = t"
| "item_text (Tup ts) = []"


section \<open>The dictionary of the script and a runtime for the examples\<close>

text \<open>
  The keys of the dictionary in the \<^verbatim>\<open>__main__\<close> block (lines 113, 117 and 121), as strings and
  as patterns: \<^verbatim>\<open>\A.*?(?=### \| \[hashiya)\<close> for the main text,
  \<^verbatim>\<open>(### \| \[hashiya +NAME.+?)(?=### \| \[hashiya|\Z)\<close> for each of the two commentaries.
\<close>

definition shirwani :: pystr where
  "shirwani = [1575, 1604, 1588, 1585, 1608, 1575, 1606, 1610]"

definition ibn :: pystr where "ibn = [1575, 1576, 1606]"
definition qasim :: pystr where "qasim = [1602, 1575, 1587, 1605]"

definition tag_src :: pystr where
  "tag_src = asc ''### '' @ [92] @ asc ''| '' @ [92] @ asc ''['' @ hashiya"

definition pat_matn :: pystr where
  "pat_matn = [92] @ asc ''A.*?(?='' @ tag_src @ asc '')''"

definition matn_rx :: rx where
  "matn_rx = cat [BOS, few Dot, Ahead (Lit hashiya_tag)]"

definition pat_shirwani :: pystr where
  "pat_shirwani = asc ''('' @ tag_src @ asc '' +'' @ shirwani @ asc ''.+?)(?='' @ tag_src
      @ asc ''|'' @ [92] @ asc ''Z)''"

definition shirwani_rx :: rx where
  "shirwani_rx = cat [
     Grp 1 (cat [Lit hashiya_tag, many1 (chr 32), Lit shirwani, few1 Dot]),
     Ahead (Alt (Lit hashiya_tag) EOS)]"

definition pat_ibn_qasim :: pystr where
  "pat_ibn_qasim = asc ''('' @ tag_src @ asc '' +'' @ ibn @ asc '' +'' @ qasim @ asc ''.+?)(?=''
      @ tag_src @ asc ''|'' @ [92] @ asc ''Z)''"

definition ibn_qasim_rx :: rx where
  "ibn_qasim_rx = cat [
     Grp 1 (cat [Lit hashiya_tag, many1 (chr 32), Lit ibn, many1 (chr 32), Lit qasim, few1 Dot]),
     Ahead (Alt (Lit hashiya_tag) EOS)]"

text \<open>
  A file name made of ASCII letters, digits, \<^verbatim>\<open>_\<close>, \<^verbatim>\<open>-\<close> and \<^verbatim>\<open>.\<close>, read as a pattern: every
  character stands for itself, except the dot, which matches any character but the line feed.
\<close>

definition name_char :: "nat \<Rightarrow> bool" where
  "name_char c = ((48 \<le> c \<and> c \<le> 57) \<or> (65 \<le> c \<and> c \<le> 90) \<or> (97 \<le> c \<and> c \<le> 122)
                  \<or> c = 95 \<or> c = 45 \<or> c = 46)"

fun name_rx :: "pystr \<Rightarrow> rx" where
  "name_rx [] = Lit []"
| "name_rx (c # cs) = Seq (if c = 46 then One Dot else Lit [c]) (name_rx cs)"

text \<open>
  The runtime of the examples: the Unicode classes on the Arabic block (letters
  \<^verbatim>\<open>U+0621\<close> to \<^verbatim>\<open>U+064A\<close>, digits \<^verbatim>\<open>U+0660\<close> to \<^verbatim>\<open>U+0669\<close>) and on the two Latin-1 spaces, and
  a parser that knows the three keys above, the pattern \<^verbatim>\<open>(a)(b)\<close> with its two groups and the
  file names; replacement strings with a backslash do not occur in the examples.
\<close>

definition pat_two_groups :: pystr where
  "pat_two_groups = asc ''(a)(b)''"

definition two_groups_rx :: rx where
  "two_groups_rx = cat [Grp 1 (Lit (asc ''a'')), Grp 2 (Lit (asc ''b''))]"

definition py :: runtime where
  "py = \<lparr>uni_word = (\<lambda>c. 1569 \<le> c \<and> c \<le> 1610),
         uni_space = (\<lambda>c. c = 133 \<or> c = 160),
         uni_digit = (\<lambda>c. 1632 \<le> c \<and> c \<le> 1641),
         re_parse = (\<lambda>p. if p = pat_matn then Some matn_rx
                          else if p = pat_shirwani then Some shirwani_rx
                          else if p = pat_ibn_qasim then Some ibn_qasim_rx
                          else if p = pat_two_groups then Some two_groups_rx
                          else if list_all name_char p then Some (name_rx p)
                          else None),
         tmpl_parse = (\<lambda>r p. None)\<rparr>"

text \<open>
  The scenario of the specification: the header marker, three page markers each on a line of
  its own, a line of main text (\<^verbatim>\<open>matn nass\<close>) and a commentary line
  (\<^verbatim>\<open>### | [hashiya al-Shirwani] ta'liq\<close>), split for the main text and the first commentary.
\<close>

definition matn_line :: pystr where
  "matn_line = [1605, 1578, 1606, 32, 1606, 1589]"

definition sharh_line :: pystr where
  "sharh_line = hashiya_tag @ [32] @ shirwani @ asc ''] '' @ [1578, 1593, 1604, 1610, 1602]"

definition scenario_doc :: pystr where
  "scenario_doc = META @ [LF, LF] @ asc ''PageV01P001'' @ [LF] @ matn_line @ [LF]
     @ asc ''PageV01P002'' @ [LF] @ sharh_line @ [LF] @ asc ''PageV01P003''"

definition scenario_texts_d :: texts_d where
  "scenario_texts_d = [(pat_matn, \<lparr>d_fn = asc ''BK1'', d_text = []\<rparr>),
                       (pat_shirwani, \<lparr>d_fn = asc ''BK2'', d_text = []\<rparr>)]"

definition scenario_io :: io where
  "scenario_io = \<lparr>files = [asc ''mix'' \<mapsto> scenario_doc, asc ''mix.yml'' \<mapsto> asc ''uri: mix''],
                  written = []\<rparr>"


text \<open>
  The results of a sequence \<open>Seq a b\<close>, computed from the list of the results of \<open>a\<close> one
  result at a time (lemma \<open>ms_Seq\<close> below); the examples are evaluated with it.
\<close>

fun seq_step :: "bool \<Rightarrow> runtime \<Rightarrow> rx \<Rightarrow> bool \<Rightarrow> pystr \<Rightarrow> (nat \<times> caps) list \<Rightarrow> (nat \<times> caps) list" where
  "seq_step dotall rt b bos s [] = []"
| "seq_step dotall rt b bos s ((n1, c1) # rest) =
     map (\<lambda>(n2, c2). (n1 + n2, c2 @ c1)) (ms dotall rt b (bos \<and> n1 = 0) (drop n1 s))
     @ seq_step dotall rt b bos s rest"

text \<open>
  The body of the scenario, the segments into which line 66 splits it, and the dictionary after
  the loop.
\<close>

definition scenario_body :: pystr where
  "scenario_body = [LF, LF] @ asc ''PageV01P001'' @ [LF] @ matn_line @ [LF]
     @ asc ''PageV01P002'' @ [LF] @ sharh_line @ [LF] @ asc ''PageV01P003''"

definition scenario_pages :: "pystr list" where
  "scenario_pages = [[], [LF, LF] @ asc ''PageV01P001'' @ [LF], matn_line,
     [LF] @ asc ''PageV01P002'' @ [LF], sharh_line, [LF] @ asc ''PageV01P003'', []]"

definition scenario_filled :: texts_d where
  "scenario_filled =
     [(pat_matn, \<lparr>d_fn = asc ''BK1'', d_text =
         [[LF, LF] @ asc ''PageV01P001'' @ [LF], matn_line, [LF] @ asc ''PageV01P002'' @ [LF],
          sharh_line, [LF] @ asc ''PageV01P003'', [], NO_PAGE_NUMBER]\<rparr>),
      (pat_shirwani, \<lparr>d_fn = asc ''BK2'', d_text =
         [[LF, LF] @ asc ''PageV01P001'' @ [LF], matn_line, [LF] @ asc ''PageV01P002'' @ [LF],
          sharh_line, sharh_line @ [LF] @ asc ''PageV01P003'', [], NO_PAGE_NUMBER]\<rparr>)]"

text \<open>
  Further inputs of the examples: a body with one page marker that follows the text on its
  line, a dictionary with the pattern of the main text only, a page with two commentary blocks
  of the same commentary, a file whose name contains a dot together with its metadata file,
  and a file without the header marker.
\<close>

definition inline_body :: pystr where
  "inline_body = asc ''a PageV01P001''"

definition matn_only :: texts_d where
  "matn_only = [(pat_matn, \<lparr>d_fn = asc ''BK1'', d_text = []\<rparr>)]"

definition inline_filled :: texts_d where
  "inline_filled =
     [(pat_matn, \<lparr>d_fn = asc ''BK1'', d_text = [asc ''PageV01P001'', NO_PAGE_NUMBER]\<rparr>)]"

definition sharh_a :: pystr where "sharh_a = hashiya_tag @ [32] @ shirwani @ asc ''] a''"
definition sharh_b :: pystr where "sharh_b = hashiya_tag @ [32] @ shirwani @ asc ''] b''"

definition two_sharh :: pystr where
  "two_sharh = sharh_a @ sharh_b"

definition shirwani_only :: texts_d where
  "shirwani_only = [(pat_shirwani, \<lparr>d_fn = asc ''BK2'', d_text = []\<rparr>)]"

definition renamed_texts_d :: texts_d where
  "renamed_texts_d = [(pat_matn, \<lparr>d_fn = asc ''Ibn.Matn'', d_text = []\<rparr>)]"

definition renamed_io :: io where
  "renamed_io = \<lparr>files = [asc ''in/Ibn.Tuhfa'' \<mapsto> META @ asc ''x'',
                            asc ''in/Ibn.Tuhfa.yml'' \<mapsto> asc ''uri: Ibn.Tuhfa, was Ibn-Tuhfa''],
                 written = []\<rparr>"

definition headless_io :: io where
  "headless_io = \<lparr>files = [asc ''mix'' \<mapsto> asc ''no header''], written = []\<rparr>"

text \<open>
  A document with a title line before the header marker, once with the line ended by a line
  feed and once by carriage return and line feed, and the dictionary after the loop (the body
  \<^verbatim>\<open>x\<close> has no commentary tag, so the pattern of the main text finds nothing).
\<close>

definition titled_doc :: pystr where
  "titled_doc = asc ''Title'' @ [LF] @ META @ asc ''x''"

definition crlf_doc :: pystr where
  "crlf_doc = asc ''Title'' @ [CR, LF] @ META @ asc ''x''"

definition titled_io :: io where
  "titled_io = \<lparr>files = [asc ''mix'' \<mapsto> titled_doc, asc ''mix.yml'' \<mapsto> asc ''uri: mix''],
                written = []\<rparr>"

definition crlf_io :: io where
  "crlf_io = \<lparr>files = [asc ''mix'' \<mapsto> crlf_doc, asc ''mix.yml'' \<mapsto> asc ''uri: mix''],
              written = []\<rparr>"

definition titled_filled :: texts_d where
  "titled_filled = [(pat_matn, \<lparr>d_fn = asc ''BK1'', d_text = [NO_PAGE_NUMBER]\<rparr>)]"

text \<open>
  A dictionary whose first pattern, \<^verbatim>\<open>zzz\<close>, has no match in the body \<^verbatim>\<open>ab\<close> and whose second
  pattern has two groups.
\<close>

definition grouped_td :: texts_d where
  "grouped_td = [(asc ''zzz'', \<lparr>d_fn = asc ''A'', d_text = []\<rparr>),
                 (pat_two_groups, \<lparr>d_fn = asc ''B'', d_text = []\<rparr>)]"

definition grouped_io :: io where
  "grouped_io = \<lparr>files = [asc ''mix'' \<mapsto> META @ asc ''ab'', asc ''mix.yml'' \<mapsto> asc ''uri: mix''],
                 written = []\<rparr>"

text \<open>
  An output file as the function writes it, with two tags and a page marker followed by the
  sentinel, and its cleaned form.
\<close>

definition cleanable :: pystr where
  "cleanable = META @ [LF, LF] @ asc ''# text <b>x</b> PageV01P001'' @ NO_PAGE_NUMBER"

definition cleaned :: pystr where
  "cleaned = META @ [LF, LF] @ asc ''# text x PageV01P001''"


section \<open>Properties of the matching loop\<close>


lemma take_drop_pred: "0 < n \<Longrightarrow> take n (x # xs) @ drop (n - Suc 0) xs = x # xs"
  by (cases n) auto

lemma scan_text: "concat (map tok_text (scan dotall rt r bos k s)) = drop k s"
proof (induction dotall rt r bos k s rule: scan.induct)
  case (2 dotall rt r bos x xs)
  show ?case
  proof (cases "ms dotall rt r bos (x # xs)")
    case Nil
    with 2 show ?thesis by simp
  next
    case (Cons p rest)
    obtain n c where p: "p = (n, c)" by (cases p)
    show ?thesis
    proof (cases "0 < n")
      case True
      with 2(2)[OF Cons p[symmetric] True] Cons p show ?thesis
        by (simp add: take_drop_pred del: take_Suc_Cons)
    next
      case False
      show ?thesis
      proof (cases "find (\<lambda>(n', c'). 0 < n') rest")
        case None
        with 2(3)[OF Cons p[symmetric] False None] Cons p False show ?thesis by simp
      next
        case (Some q)
        obtain n' c' where q: "q = (n', c')" by (cases q)
        from Some q have pos: "0 < n'" by (auto simp: find_Some_iff)
        with 2(4)[OF Cons p[symmetric] False Some q[symmetric]] Cons p False Some q show ?thesis
          by (simp add: take_drop_pred del: take_Suc_Cons)
      qed
    qed
  qed
qed (auto split: list.splits)

lemma length_split_toks: "length (split_toks g acc ts) = Suc (Suc g * hits ts)"
  by (induction g acc ts rule: split_toks.induct) auto

lemma ms_Lit: "ms dotall rt (Lit m) bos s = (if prefix m s then [(length m, [])] else [])"
  by (auto simp: prefix_def) (metis append_eq_conv_conj)+


lemma scan_Lit_Nil: "m \<noteq> [] \<Longrightarrow> scan dotall rt (Lit m) bos 0 [] = []"
  by simp

lemma scan_Lit_Cons: "m \<noteq> [] \<Longrightarrow> scan dotall rt (Lit m) bos 0 (x # xs) =
   (if prefix m (x # xs) then Hit m [] # scan dotall rt (Lit m) False (length m - 1) xs
    else Gap x # scan dotall rt (Lit m) False 0 xs)"
  unfolding scan.simps ms_Lit by (auto simp: prefix_def)

lemma hits_scan_Lit: "m \<noteq> [] \<Longrightarrow> hits (scan dotall rt (Lit m) bos k s) = occurrences m k s"
proof (induction m k s arbitrary: bos rule: occurrences.induct)
  case (1 m k)
  then show ?case by (cases k) simp_all
next
  case (2 m k x xs)
  then show ?case by simp
next
  case (3 m x xs)
  then show ?case by (simp add: scan_Lit_Cons del: scan.simps)
qed

lemma length_re_split_Lit: "m \<noteq> [] \<Longrightarrow> length (re_split rt (Lit m) s) = Suc (occurrences m 0 s)"
  by (simp add: re_split_def length_split_toks hits_scan_Lit)

lemma split_toks_nonempty: "split_toks g acc ts \<noteq> []"
  by (induction g acc ts rule: split_toks.induct) auto

lemma split_toks_single: "split_toks 0 acc ts = [b] \<Longrightarrow> b = acc @ concat (map tok_text ts)"
  by (induction "0::nat" acc ts rule: split_toks.induct) (auto simp: split_toks_nonempty)

lemma split_Lit_two:
  "m \<noteq> [] \<Longrightarrow> split_toks 0 acc (scan dotall rt (Lit m) bos 0 s) = [h, b] \<Longrightarrow>
     \<exists>g. h = acc @ g \<and> s = g @ m @ b \<and> (\<forall>i<length g. \<not> prefix m (drop i s))"
proof (induction s arbitrary: acc bos)
  case Nil
  then show ?case by simp
next
  case (Cons x xs)
  show ?case
  proof (cases "prefix m (x # xs)")
    case True
    with Cons.prems have h: "h = acc" and r: "split_toks 0 [] (scan dotall rt (Lit m) False (length m - 1) xs) = [b]"
      by (simp_all add: scan_Lit_Cons del: scan.simps)
    from split_toks_single[OF r] have "b = drop (length m - 1) xs" by (simp add: scan_text)
    moreover from True Cons.prems(1) have "x # xs = m @ drop (length m - 1) xs"
      by (cases m) (auto simp: prefix_def)
    ultimately show ?thesis using h by auto
  next
    case False
    with Cons.prems have "split_toks 0 (acc @ [x]) (scan dotall rt (Lit m) False 0 xs) = [h, b]"
      by (simp add: scan_Lit_Cons del: scan.simps)
    from Cons.IH[OF Cons.prems(1) this] obtain g where
      g: "h = (acc @ [x]) @ g" "xs = g @ m @ b" "\<forall>i<length g. \<not> prefix m (drop i xs)" by blast
    have "\<forall>i<length (x # g). \<not> prefix m (drop i (x # xs))"
    proof (intro allI impI)
      fix i assume "i < length (x # g)"
      then show "\<not> prefix m (drop i (x # xs))" using False g(3) by (cases i) auto
    qed
    with g show ?thesis by (intro exI[of _ "x # g"]) auto
  qed
qed

lemma re_split_Lit_two:
  assumes "m \<noteq> []" "re_split rt (Lit m) s = [h, b]"
  shows "s = h @ m @ b \<and> (\<forall>i<length h. \<not> prefix m (drop i s))"
  using split_Lit_two[OF assms(1), of "[]" False rt True s h b] assms(2)
  by (auto simp: re_split_def)

section \<open>The page loop\<close>
lemma each_text_Inr:
  "each_text rt page pn td = Inr td' \<Longrightarrow>
   td' = map (\<lambda>(k, d). (k, d\<lparr>d_text := d_text d @ [item_text (first_match rt k page) @ pn]\<rparr>)) td"
proof (induction td arbitrary: td')
  case Nil then show ?case by simp
next
  case (Cons a td)
  obtain k d where a: "a = (k, d)" by (cases a)
  from Cons.prems show ?case unfolding a
    by (cases "first_match rt k page") (auto split: sum.splits dest: Cons.IH)
qed

lemma each_text_Inl:
  "each_text rt page pn td = Inl e \<Longrightarrow>
   e = TypeError \<and> (\<exists>(k, d) \<in> set td. \<exists>ts. first_match rt k page = Tup ts)"
proof (induction td)
  case Nil then show ?case by simp
next
  case (Cons a td)
  obtain k d where a: "a = (k, d)" by (cases a)
  from Cons show ?case unfolding a
    by (cases "first_match rt k page") (auto split: sum.splits)
qed

lemma page_loop_Inr:
  "page_loop rt pages ixs td = Inr td' \<Longrightarrow>
   td' = map (\<lambda>(k, d). (k, d\<lparr>d_text := d_text d @
            map (\<lambda>i. item_text (first_match rt k (pages ! i)) @ page_no_at pages i)
                (filter (\<lambda>i. \<not> prefix (asc ''Page'') (pages ! i)) ixs)\<rparr>)) td"
proof (induction ixs arbitrary: td)
  case Nil
  then show ?case by (simp add: case_prod_unfold)
next
  case (Cons i ixs)
  show ?case
  proof (cases "prefix (asc ''Page'') (pages ! i)")
    case True
    with Cons show ?thesis by simp
  next
    case False
    with Cons.prems obtain td1 where
      e: "each_text rt (pages ! i) (page_no_at pages i) td = Inr td1" and
      l: "page_loop rt pages ixs td1 = Inr td'"
      by (auto split: sum.splits)
    show ?thesis
      unfolding Cons.IH[OF l] each_text_Inr[OF e] using False
      by (simp add: case_prod_unfold comp_def)
  qed
qed

lemma page_loop_Inl:
  "page_loop rt pages ixs td = Inl e \<Longrightarrow>
   e = TypeError \<and>
   (\<exists>i \<in> set (filter (\<lambda>i. \<not> prefix (asc ''Page'') (pages ! i)) ixs).
      \<exists>k \<in> fst ` set td. \<exists>ts. first_match rt k (pages ! i) = Tup ts)"
proof (induction ixs arbitrary: td)
  case Nil then show ?case by simp
next
  case (Cons i ixs)
  show ?case
  proof (cases "prefix (asc ''Page'') (pages ! i)")
    case True
    with Cons show ?thesis by auto
  next
    case False
    show ?thesis
    proof (cases "each_text rt (pages ! i) (page_no_at pages i) td")
      case (Inl e')
      with Cons.prems False have "e' = e" by simp
      with each_text_Inl[OF Inl] False show ?thesis by force
    next
      case (Inr td1)
      with Cons.prems False have l: "page_loop rt pages ixs td1 = Inl e" by simp
      have "fst ` set td1 = fst ` set td" unfolding each_text_Inr[OF Inr]
        by (force simp: case_prod_unfold)
      with Cons.IH[OF l] show ?thesis by auto
    qed
  qed
qed


lemma page_loop_nth:
  assumes "page_loop rt pages ixs td = Inr td'" "j < length td"
  shows "fst (td' ! j) = fst (td ! j) \<and> d_text (snd (td' ! j)) = d_text (snd (td ! j)) @
            map (\<lambda>i. item_text (first_match rt (fst (td ! j)) (pages ! i)) @ page_no_at pages i)
                (filter (\<lambda>i. \<not> prefix (asc ''Page'') (pages ! i)) ixs)"
  unfolding page_loop_Inr[OF assms(1)] using assms(2) by (simp add: case_prod_unfold)

text \<open>
  Claim C5. For every content segment that the page loop processes (every segment that does
  not start with \<^verbatim>\<open>Page\<close>), the text appended to each descriptor's fragment list is the first
  match of the descriptor's pattern followed by the next segment of the split sequence; for
  a segment with no following segment the sentinel \<^verbatim>\<open>"\nNO_PAGE_NUMBER\n"\<close> follows instead.
\<close>

theorem marker_pairing:
  assumes "page_loop rt pages [0..<length pages] td = Inr td'" and "j < length td"
  shows "fst (td' ! j) = fst (td ! j) \<and>
         d_text (snd (td' ! j)) = d_text (snd (td ! j)) @
           map (\<lambda>i. item_text (first_match rt (fst (td ! j)) (pages ! i)) @
                    (if Suc i < length pages then pages ! Suc i
                     else LF # asc ''NO_PAGE_NUMBER'' @ [LF]))
               (filter (\<lambda>i. \<not> prefix (asc ''Page'') (pages ! i)) [0..<length pages])"
  using page_loop_nth[OF assms] by (simp add: page_no_at_def NO_PAGE_NUMBER_def)

lemma length_filter_even: "length (filter even [0..<Suc (2 * n)]) = Suc n"
  by (induction n) auto

lemma ngroups_page_rx: "ngroups page_rx = 1"
  by (simp add: page_rx_def many_def many1_def)

lemma length_split_pages: "length (split_pages rt body) = Suc (2 * count_markers rt body)"
  by (simp add: split_pages_def count_markers_def re_split_def length_split_toks ngroups_page_rx)

text \<open>
  Claim C1, as amended. The fragment list of every descriptor grows by one fragment for each
  content segment. When every marker segment starts with \<^verbatim>\<open>Page\<close> and no content segment does,
  a body with \<open>P\<close> page markers has \<open>P + 1\<close> content segments (the text after the last marker,
  possibly empty, is one of them), so every fragment list gains exactly \<open>P + 1\<close> fragments,
  not \<open>P\<close>.
\<close>

theorem page_count_plus_one:
  assumes "fill_texts rt body td = Inr td'"
      and "\<forall>i<length (split_pages rt body). prefix (asc ''Page'') (split_pages rt body ! i) = odd i"
      and "j < length td"
  shows "length (d_text (snd (td' ! j))) =
         length (d_text (snd (td ! j))) + count_markers rt body + 1"
proof -
  let ?pages = "split_pages rt body"
  from assms(1) have l: "page_loop rt ?pages [0..<length ?pages] td = Inr td'"
    by (simp add: fill_texts_def Let_def)
  have "filter (\<lambda>i. \<not> prefix (asc ''Page'') (?pages ! i)) [0..<length ?pages]
        = filter even [0..<length ?pages]"
    using assms(2) by (intro filter_cong) auto
  then have "length (filter (\<lambda>i. \<not> prefix (asc ''Page'') (?pages ! i)) [0..<length ?pages])
        = length (filter even [0..<length ?pages])"
    by (rule arg_cong)
  also have "\<dots> = Suc (count_markers rt body)"
    unfolding length_split_pages by (rule length_filter_even)
  finally have "length (filter (\<lambda>i. \<not> prefix (asc ''Page'') (?pages ! i)) [0..<length ?pages])
        = Suc (count_markers rt body)" .
  with page_loop_nth[OF l assms(3)] show ?thesis by simp
qed

lemma findall_toks_Str: "g \<le> 1 \<Longrightarrow> x \<in> set (findall_toks g ts) \<Longrightarrow> \<exists>t. x = Str t"
  by (induction g ts rule: findall_toks.induct) (auto split: if_splits)

lemma first_match_Str:
  assumes "\<forall>r. re_parse rt k = Some r \<longrightarrow> ngroups r \<le> 1"
  shows "first_match rt k page \<noteq> Tup ts"
proof (cases "re_parse rt k")
  case None
  then show ?thesis by (simp add: first_match_def)
next
  case (Some r)
  with assms have g: "ngroups r \<le> 1" by simp
  show ?thesis
  proof (cases "re_findall True rt r page")
    case Nil
    with Some show ?thesis by (simp add: first_match_def)
  next
    case (Cons x xs)
    then have "x \<in> set (findall_toks (ngroups r) (scan True rt r True 0 page))"
      by (simp add: re_findall_def)
    from findall_toks_Str[OF g this] Some Cons show ?thesis by (auto simp: first_match_def)
  qed
qed

text \<open>
  Claim C4, as amended. A pattern without a match on a page raises nothing, and the fragment
  appended for that descriptor and page is the empty string followed by the page marker of the
  segment. The loop then runs on over all pages and descriptors and completes, unless some
  pattern of the dictionary gives a tuple on some content segment: \<^verbatim>\<open>re.findall\<close> gives tuples
  for a pattern with two or more groups, and for a tuple \<^verbatim>\<open>t+page_no\<close> (line 79, outside the
  \<^verbatim>\<open>try\<close>) raises \<^verbatim>\<open>TypeError\<close>. Patterns with at most one group never give tuples (lemma
  \<open>first_match_Str\<close>).
\<close>

theorem unmatched_pattern_not_fatal:
  assumes "\<forall>k \<in> fst ` set td. \<forall>i \<in> set (content_ixs pages). \<forall>ts.
             first_match rt k (pages ! i) \<noteq> Tup ts"
  shows "\<exists>td'. page_loop rt pages [0..<length pages] td = Inr td' \<and> length td' = length td \<and>
     (\<forall>j<length td. \<forall>n<length (content_ixs pages). \<forall>r.
        re_parse rt (fst (td ! j)) = Some r \<longrightarrow>
        re_findall True rt r (pages ! (content_ixs pages ! n)) = [] \<longrightarrow>
        d_text (snd (td' ! j)) ! (length (d_text (snd (td ! j))) + n)
          = [] @ page_no_at pages (content_ixs pages ! n))"
proof (cases "page_loop rt pages [0..<length pages] td")
  case (Inl e)
  from page_loop_Inl[OF Inl] obtain i k ts where
    "i \<in> set (content_ixs pages)" "k \<in> fst ` set td" "first_match rt k (pages ! i) = Tup ts"
    unfolding content_ixs_def by blast
  with assms show ?thesis by blast
next
  case (Inr td')
  have len: "length td' = length td" unfolding page_loop_Inr[OF Inr] by simp
  have "d_text (snd (td' ! j)) ! (length (d_text (snd (td ! j))) + n)
          = [] @ page_no_at pages (content_ixs pages ! n)"
    if j: "j < length td" and n: "n < length (content_ixs pages)"
      and r: "re_parse rt (fst (td ! j)) = Some r"
      and f: "re_findall True rt r (pages ! (content_ixs pages ! n)) = []" for j n r
  proof -
    from r f have "first_match rt (fst (td ! j)) (pages ! (content_ixs pages ! n)) = Str []"
      by (simp add: first_match_def)
    with page_loop_nth[OF Inr j] n show ?thesis
      by (simp add: content_ixs_def nth_append)
  qed
  with Inr len show ?thesis by blast
qed



section \<open>Reading and writing in text mode\<close>

lemma to_linesep_id [simp]: "to_linesep s = s"
  by (induction s) (simp_all add: to_linesep_def linesep_def)

lemma universal_newlines_plain: "c \<noteq> CR \<Longrightarrow> universal_newlines (c # cs) = c # universal_newlines cs"
  by (cases cs) simp_all

lemma universal_newlines_CR: "\<exists>ys. universal_newlines (CR # cs) = LF # ys"
  by (cases cs) simp_all

lemma universal_newlines_lone_CR:
  "cs = [] \<or> hd cs \<noteq> LF \<Longrightarrow> universal_newlines (CR # cs) = LF # universal_newlines cs"
  by (cases cs) auto

lemma universal_newlines_id: "CR \<notin> set s \<Longrightarrow> universal_newlines s = s"
  by (induction s) (simp_all add: universal_newlines_plain)

lemma universal_newlines_append:
  "CR \<notin> set m \<Longrightarrow> universal_newlines (m @ s) = m @ universal_newlines s"
  by (induction m) (simp_all add: universal_newlines_plain)

lemma prefix_universal_newlines:
  "CR \<notin> set m \<Longrightarrow> LF \<notin> set m \<Longrightarrow> prefix m (universal_newlines s) = prefix m s"
proof (induction m arbitrary: s)
  case Nil
  then show ?case by simp
next
  case (Cons a m)
  show ?case
  proof (cases s)
    case Nil
    then show ?thesis by simp
  next
    case (Cons c cs)
    show ?thesis
    proof (cases "c = CR")
      case True
      from universal_newlines_CR[of cs] obtain ys where "universal_newlines (CR # cs) = LF # ys" ..
      with True Cons Cons.prems show ?thesis by auto
    next
      case False
      with Cons Cons.prems Cons.IH[of cs] show ?thesis
        by (simp add: universal_newlines_plain)
    qed
  qed
qed

lemma no_prefix_hd: "m \<noteq> [] \<Longrightarrow> x \<notin> set m \<Longrightarrow> \<not> prefix m (x # xs)"
  by (cases m) auto

text \<open>
  The first occurrence of a word without line breaks in the text read from a file is its
  first occurrence in the file, and what stands before it and after it in the text is read from
  what stands before it and after it in the file.
\<close>

lemma universal_newlines_split:
  assumes m: "m \<noteq> []" "CR \<notin> set m" "LF \<notin> set m"
  shows "universal_newlines s = h @ m @ b \<Longrightarrow>
         \<forall>i<length h. \<not> prefix m (drop i (universal_newlines s)) \<Longrightarrow>
         \<exists>h0 b0. s = h0 @ m @ b0 \<and> universal_newlines h0 = h \<and> universal_newlines b0 = b \<and>
                 (\<forall>i<length h0. \<not> prefix m (drop i s))"
proof (induction s arbitrary: h rule: length_induct)
  case (1 s)
  note IH = 1(1)[rule_format]
  note eq = 1(2) and first = 1(3)
  show ?case
  proof (cases h)
    case Nil
    with eq have "prefix m (universal_newlines s)" by simp
    then have "prefix m s" by (simp add: prefix_universal_newlines m)
    then obtain rest where s: "s = m @ rest" by (auto simp: prefix_def)
    with eq Nil have "b = universal_newlines rest" by (simp add: universal_newlines_append m)
    with s Nil show ?thesis by (intro exI[of _ "[]"] exI[of _ rest]) simp
  next
    case (Cons x h')
    from first Cons have np: "\<not> prefix m (universal_newlines s)" by auto
    then have nps: "\<not> prefix m s" by (simp add: prefix_universal_newlines m)
    from eq Cons obtain c cs where s: "s = c # cs" by (cases s) auto
    have step: "\<exists>h0 b0. s = h0 @ m @ b0 \<and> universal_newlines h0 = h \<and> universal_newlines b0 = b \<and>
                 (\<forall>i<length h0. \<not> prefix m (drop i s))"
      if t: "s = pre @ t" "pre \<noteq> []" "universal_newlines s = x # universal_newlines t"
        and pre: "\<And>u. u = [] \<or> hd u = hd t \<and> t \<noteq> [] \<Longrightarrow> universal_newlines (pre @ u) = x # universal_newlines u"
        and skip: "\<forall>i<length pre. \<not> prefix m (drop i s)"
      for pre t
    proof -
      from eq t Cons have e: "universal_newlines t = h' @ m @ b" by simp
      have f: "\<forall>i<length h'. \<not> prefix m (drop i (universal_newlines t))"
      proof (intro allI impI)
        fix i assume "i < length h'"
        with first Cons have "\<not> prefix m (drop (Suc i) (universal_newlines s))" by auto
        with t show "\<not> prefix m (drop i (universal_newlines t))" by simp
      qed
      from t have "length t < length s" by simp
      from IH[OF this e f[rule_format]] obtain h0 b0 where
        r: "t = h0 @ m @ b0" "universal_newlines h0 = h'" "universal_newlines b0 = b"
           "\<forall>i<length h0. \<not> prefix m (drop i t)" by blast
      have "h0 = [] \<or> hd h0 = hd t \<and> t \<noteq> []" using r(1) m(1) by (cases h0) auto
      from pre[OF this] r(2) Cons have u: "universal_newlines (pre @ h0) = h" by simp
      have "\<forall>i<length (pre @ h0). \<not> prefix m (drop i s)"
      proof (intro allI impI)
        fix i assume i: "i < length (pre @ h0)"
        show "\<not> prefix m (drop i s)"
        proof (cases "i < length pre")
          case True
          with skip show ?thesis by simp
        next
          case False
          then have "drop i s = drop (i - length pre) t" using t by simp
          moreover from False i have "i - length pre < length h0" by simp
          ultimately show ?thesis using r(4) by simp
        qed
      qed
      with r(1,3) t u show ?thesis
        by (intro exI[of _ "pre @ h0"] exI[of _ b0]) simp
    qed
    show ?thesis
    proof (cases "c = CR")
      case False
      show ?thesis
      proof (rule step[of "[c]" cs])
        show "s = [c] @ cs" using s by simp
        show "[c] \<noteq> []" by simp
        from eq Cons s False show "universal_newlines s = x # universal_newlines cs"
          by (simp add: universal_newlines_plain)
        then show "universal_newlines ([c] @ u) = x # universal_newlines u" for u
          using s False by (simp add: universal_newlines_plain)
        show "\<forall>i<length [c]. \<not> prefix m (drop i s)" using nps by simp
      qed
    next
      case True
      show ?thesis
      proof (cases "cs = [] \<or> hd cs \<noteq> LF")
        case lone: True
        have x: "x = LF" using eq Cons s True universal_newlines_CR[of cs] by auto
        show ?thesis
        proof (rule step[of "[c]" cs])
          show "s = [c] @ cs" using s by simp
          show "[c] \<noteq> []" by simp
          show "universal_newlines s = x # universal_newlines cs"
            using s True x lone by (simp add: universal_newlines_lone_CR)
          show "universal_newlines ([c] @ u) = x # universal_newlines u"
            if "u = [] \<or> hd u = hd cs \<and> cs \<noteq> []" for u
            using that lone True x by (auto simp: universal_newlines_lone_CR)
          show "\<forall>i<length [c]. \<not> prefix m (drop i s)" using nps by simp
        qed
      next
        case False
        then obtain ds where cs: "cs = LF # ds" by (cases cs) auto
        have x: "x = LF" using eq Cons s True universal_newlines_CR[of cs] by auto
        show ?thesis
        proof (rule step[of "[c, LF]" ds])
          show "s = [c, LF] @ ds" using s cs by simp
          show "[c, LF] \<noteq> []" by simp
          show "universal_newlines s = x # universal_newlines ds"
            using s cs True x by simp
          show "universal_newlines ([c, LF] @ u) = x # universal_newlines u" for u
            using True x by simp
          show "\<forall>i<length [c, LF]. \<not> prefix m (drop i s)"
            using nps s cs no_prefix_hd[OF m(1) m(3)] by (auto simp: less_Suc_eq)
        qed
      qed
    qed
  qed
qed

lemma occurrences_skip: "occurrences m k s = occurrences m 0 (drop k s)"
proof (induction s arbitrary: k)
  case Nil
  then show ?case by simp
next
  case (Cons x xs)
  then show ?case by (cases k) simp_all
qed

lemma occurrences_prefix:
  "m \<noteq> [] \<Longrightarrow> occurrences m 0 (m @ s) = Suc (occurrences m 0 s)"
proof -
  assume m: "m \<noteq> []"
  then obtain a l where al: "m = a # l" by (cases m) auto
  have "occurrences m 0 (m @ s) = Suc (occurrences m (length m - 1) (l @ s))"
    by (simp add: al)
  also have "occurrences m (length m - 1) (l @ s) = occurrences m 0 s"
    by (subst occurrences_skip) (simp add: al)
  finally show ?thesis .
qed

lemma occurrences_no_prefix:
  "\<not> prefix m (x # xs) \<Longrightarrow> occurrences m 0 (x # xs) = occurrences m 0 xs"
  by simp

text \<open>
  A word without line breaks occurs in a text as often as in the text that is read from it.
\<close>

lemma occurrences_universal_newlines:
  assumes m: "m \<noteq> []" "CR \<notin> set m" "LF \<notin> set m"
  shows "occurrences m 0 (universal_newlines s) = occurrences m 0 s"
proof (induction s rule: length_induct)
  case (1 s)
  note IH = 1[rule_format]
  show ?case
  proof (cases "prefix m s")
    case True
    then obtain rest where s: "s = m @ rest" by (auto simp: prefix_def)
    with m(1) have "length rest < length s" by simp
    from IH[OF this] show ?thesis
      unfolding s by (simp add: universal_newlines_append m occurrences_prefix)
  next
    case False
    show ?thesis
    proof (cases s)
      case Nil
      then show ?thesis by simp
    next
      case (Cons x xs)
      from False have np: "\<not> prefix m (universal_newlines s)"
        by (simp add: prefix_universal_newlines m)
      from m obtain a l where al: "m = a # l" "a \<noteq> LF" "a \<noteq> CR" by (cases m) auto
      show ?thesis
      proof (cases "x = CR")
        case x: True
        show ?thesis
        proof (cases xs)
          case Nil
          with Cons x al show ?thesis by simp
        next
          case (Cons d ds)
          show ?thesis
          proof (cases "d = LF")
            case True
            have "length ds < length s" using \<open>s = x # xs\<close> Cons by simp
            from IH[OF this] True x Cons \<open>s = x # xs\<close> al show ?thesis by simp
          next
            case False
            have "length xs < length s" using \<open>s = x # xs\<close> by simp
            from IH[OF this] False x Cons \<open>s = x # xs\<close> al show ?thesis by simp
          qed
        qed
      next
        case x: False
        have l: "length xs < length s" using Cons by simp
        from np have "\<not> prefix m (x # universal_newlines xs)"
          using x Cons by (simp add: universal_newlines_plain)
        with False IH[OF l] x Cons show ?thesis
          by (simp add: universal_newlines_plain)
      qed
    qed
  qed
qed

lemma META_plain: "CR \<notin> set META" "LF \<notin> set META"
  by (simp_all add: META_def asc_def CR_def LF_def)

lemma read_text_Some: "files w p = Some raw \<Longrightarrow> read_text w p = Some (universal_newlines raw)"
  by (simp add: read_text_def)

section \<open>The header and the files written\<close>

lemma META_nonempty: "META \<noteq> []"
  by (simp add: META_def asc_def)

lemma write_outputs_written:
  "write_outputs rt outfolder header uri yml_str ds w = (r, w') \<Longrightarrow>
   \<exists>new. written w' = written w @ new \<and>
     (r = None \<longrightarrow> (\<forall>d \<in> set ds. (path_join outfolder (d_fn d), header @ concat (d_text d)) \<in> set new)) \<and>
     (r \<noteq> None \<longrightarrow> r = Some ReError)"
proof (induction ds arbitrary: w)
  case Nil
  then show ?case by simp
next
  case (Cons d ds)
  show ?case
  proof (cases "sub_uri rt uri (d_fn d) yml_str")
    case None
    with Cons.prems show ?thesis by (auto simp: Let_def write_file_def)
  next
    case (Some y)
    let ?w2 = "write_file (path_join outfolder (d_fn d) @ asc ''.yml'') y
                 (write_file (path_join outfolder (d_fn d)) (header @ concat (d_text d)) w)"
    from Cons.prems Some have "write_outputs rt outfolder header uri yml_str ds ?w2 = (r, w')"
      by (simp add: Let_def)
    from Cons.IH[OF this] obtain new where
      n: "written w' = written ?w2 @ new"
         "r = None \<longrightarrow> (\<forall>d \<in> set ds. (path_join outfolder (d_fn d), header @ concat (d_text d)) \<in> set new)"
         "r \<noteq> None \<longrightarrow> r = Some ReError" by blast
    have "written ?w2 = written w @ [(path_join outfolder (d_fn d), header @ concat (d_text d)),
                                     (path_join outfolder (d_fn d) @ asc ''.yml'', y)]"
      by (simp add: write_file_def)
    with n show ?thesis
      by (intro exI[of _ "[(path_join outfolder (d_fn d), header @ concat (d_text d)),
                          (path_join outfolder (d_fn d) @ asc ''.yml'', y)] @ new"]) auto
  qed
qed

lemma clean_outputs_written:
  "clean_outputs f outfolder ds w = (r, w') \<Longrightarrow>
   \<exists>new. written w' = written w @ new \<and> (r \<noteq> None \<longrightarrow> r = Some FileNotFoundError)"
proof (induction ds arbitrary: w)
  case Nil
  then show ?case by simp
next
  case (Cons d ds)
  show ?case
  proof (cases "read_text w (path_join outfolder (d_fn d))")
    case None
    with Cons.prems show ?thesis by (auto simp: Let_def)
  next
    case (Some content)
    with Cons.prems have
      "clean_outputs f outfolder ds (write_file (path_join outfolder (d_fn d)) (f content) w) = (r, w')"
      by (simp add: Let_def)
    from Cons.IH[OF this] show ?thesis by (auto simp: write_file_def)
  qed
qed

lemma split_multitext_Returned:
  assumes "read_text w fp = Some src"
      and "split_multitext rt fp outfolder td ct w = (Returned td', w')"
  shows "\<exists>h body yml_str w1. re_split rt (Lit META) src = [h, body] \<and>
           fill_texts rt body td = Inr td' \<and>
           write_outputs rt outfolder (h @ META @ [LF, LF]) (last (re_split rt sep_rx fp)) yml_str
              (map snd td') w = (None, w1) \<and>
           (\<exists>new. written w' = written w1 @ new)"
proof -
  from assms obtain h body where hb: "re_split rt (Lit META) src = [h, body]"
    by (auto simp: split_multitext_def split: list.splits)
  from assms hb have ft: "fill_texts rt body td \<noteq> Inl e" for e
    by (auto simp: split_multitext_def Let_def)
  then obtain td1 where td1: "fill_texts rt body td = Inr td1" by (cases "fill_texts rt body td") auto
  from assms hb td1 obtain yml_str where y: "read_text w (fp @ asc ''.yml'') = Some yml_str"
    by (cases "read_text w (fp @ asc ''.yml'')") (auto simp: split_multitext_def Let_def)
  obtain r w1 where wo: "write_outputs rt outfolder (h @ META @ [LF, LF]) (last (re_split rt sep_rx fp))
       yml_str (map snd td1) w = (r, w1)" by (cases "write_outputs rt outfolder (h @ META @ [LF, LF]) (last (re_split rt sep_rx fp))
       yml_str (map snd td1) w")
  from assms hb td1 y wo have r: "r = None"
    by (cases r) (auto simp: split_multitext_def Let_def)
  show ?thesis
  proof (cases ct)
    case None
    with assms hb td1 y wo r have "td' = td1" "w' = w1"
      by (auto simp: split_multitext_def Let_def)
    with hb td1 wo r show ?thesis
      by (intro exI[of _ h] exI[of _ body] exI[of _ yml_str] exI[of _ w1]) auto
  next
    case (Some f)
    obtain r2 w2 where co: "clean_outputs f outfolder (map snd td1) w1 = (r2, w2)"
      by (cases "clean_outputs f outfolder (map snd td1) w1")
    from assms hb td1 y wo r Some co have r2: "r2 = None"
      by (cases r2) (auto simp: split_multitext_def Let_def)
    with assms hb td1 y wo r Some co have "td' = td1" "w' = w2"
      by (auto simp: split_multitext_def Let_def)
    with clean_outputs_written[OF co] hb td1 wo r show ?thesis
      by (intro exI[of _ h] exI[of _ body] exI[of _ yml_str] exI[of _ w1]) auto
  qed
qed

text \<open>
  Claim C3, as amended. When the function returns, the source document is \<open>h @ META @ body\<close>
  with the marker not occurring before the end of \<open>h\<close>, and the output file written for every
  descriptor (before any cleaning) begins with the header \<open>h\<close> as it is read in text mode,
  that is with every \<^verbatim>\<open>\r\n\<close> and every other \<^verbatim>\<open>\r\<close> of \<open>h\<close> turned into \<^verbatim>\<open>\n\<close>, followed by the
  marker. For a header without carriage returns this is the header of the source itself.
\<close>

theorem header_preserved:
  assumes "files w fp = Some raw"
      and "split_multitext rt fp outfolder td clean_text w = (Returned td', w')"
  shows "\<exists>h body. raw = h @ META @ body \<and> (\<forall>i<length h. \<not> prefix META (drop i raw)) \<and>
           (\<forall>d \<in> set (map snd td').
              (path_join outfolder (d_fn d), universal_newlines h @ META @ [LF, LF] @ concat (d_text d))
                \<in> set (drop (length (written w)) (written w'))) \<and>
           (CR \<notin> set h \<longrightarrow> universal_newlines h = h)"
proof -
  let ?src = "universal_newlines raw"
  from split_multitext_Returned[OF read_text_Some[OF assms(1)] assms(2)]
  obtain h1 body1 yml_str w1 new where
    hb: "re_split rt (Lit META) ?src = [h1, body1]" and
    wo: "write_outputs rt outfolder (h1 @ META @ [LF, LF]) (last (re_split rt sep_rx fp)) yml_str
              (map snd td') w = (None, w1)" and
    new: "written w' = written w1 @ new" by blast
  from re_split_Lit_two[OF META_nonempty hb]
  have src: "?src = h1 @ META @ body1" "\<forall>i<length h1. \<not> prefix META (drop i ?src)" by blast+
  from universal_newlines_split[OF META_nonempty META_plain src]
  obtain h body where
    raw: "raw = h @ META @ body" "universal_newlines h = h1"
         "\<forall>i<length h. \<not> prefix META (drop i raw)" by blast
  from write_outputs_written[OF wo] obtain new1 where
    n1: "written w1 = written w @ new1"
        "\<forall>d \<in> set (map snd td'). (path_join outfolder (d_fn d), (h1 @ META @ [LF, LF]) @ concat (d_text d)) \<in> set new1"
    by auto
  from n1 new have "drop (length (written w)) (written w') = new1 @ new" by simp
  with n1(2) raw show ?thesis
    by (intro exI[of _ h] exI[of _ body]) (auto simp: universal_newlines_id)
qed

lemma fill_texts_Inl: "fill_texts rt body td = Inl e \<Longrightarrow> e = TypeError"
  by (auto simp: fill_texts_def Let_def dest: page_loop_Inl)

lemma split_multitext_not_ValueError:
  assumes "read_text w fp = Some src" and "re_split rt (Lit META) src = [h, b]"
  shows "fst (split_multitext rt fp outfolder td ct w) \<noteq> Raised ValueError"
proof -
  have wo: "r \<noteq> Some ValueError" if "write_outputs rt outfolder hd uri y ds w0 = (r, w1)" for hd uri y ds w0 r w1
    using write_outputs_written[OF that] by auto
  have co: "r \<noteq> Some ValueError" if "clean_outputs f outfolder ds w0 = (r, w1)" for f ds w0 r w1
    using clean_outputs_written[OF that] by auto
  show ?thesis using assms
    by (auto simp: split_multitext_def Let_def split: sum.splits option.splits prod.splits
             dest: fill_texts_Inl wo co)
qed

text \<open>
  Claim C6. Occurrences of the header marker are counted from the left without overlap, as
  \<^verbatim>\<open>re.split\<close> finds them. If the source document has none or more than one, the unpacking of
  line 60 raises \<^verbatim>\<open>ValueError\<close> and nothing has been written; if it has exactly one, the
  document (as it is read) is split at it into header and body and no \<^verbatim>\<open>ValueError\<close> is
  raised.
\<close>

theorem header_marker_count:
  assumes "files w fp = Some raw"
  shows "(occurrences META 0 raw \<noteq> 1 \<longrightarrow>
            split_multitext rt fp outfolder td clean_text w = (Raised ValueError, w)) \<and>
         (occurrences META 0 raw = 1 \<longrightarrow>
            (\<exists>h b. re_split rt (Lit META) (universal_newlines raw) = [h, b] \<and>
                    universal_newlines raw = h @ META @ b) \<and>
            fst (split_multitext rt fp outfolder td clean_text w) \<noteq> Raised ValueError)"
proof (intro conjI impI)
  let ?src = "universal_newlines raw"
  have rd: "read_text w fp = Some ?src" by (rule read_text_Some[OF assms])
  have occ: "occurrences META 0 ?src = occurrences META 0 raw"
    by (rule occurrences_universal_newlines[OF META_nonempty META_plain])
  {
    assume "occurrences META 0 raw \<noteq> 1"
    then have "length (re_split rt (Lit META) ?src) \<noteq> 2"
      by (simp add: length_re_split_Lit[OF META_nonempty] occ)
    then show "split_multitext rt fp outfolder td clean_text w = (Raised ValueError, w)"
      using rd by (auto simp: split_multitext_def split: list.splits)
  }
  {
    assume "occurrences META 0 raw = 1"
    then have "length (re_split rt (Lit META) ?src) = 2"
      by (simp add: length_re_split_Lit[OF META_nonempty] occ)
    then obtain h b where hb: "re_split rt (Lit META) ?src = [h, b]"
      by (auto simp: length_Suc_conv numeral_2_eq_2)
    with re_split_Lit_two[OF META_nonempty hb]
    show "\<exists>h b. re_split rt (Lit META) ?src = [h, b] \<and> ?src = h @ META @ b" by blast
    from split_multitext_not_ValueError[OF rd hb]
    show "fst (split_multitext rt fp outfolder td clean_text w) \<noteq> Raised ValueError" .
  }
qed

section \<open>The cleaning transform: when nothing matches\<close>

lemma sub_toks_Gap: "sub_toks tm (map Gap s) = s"
  by (induction s) auto

lemma sub_toks_no_hits: "hits toks = 0 \<Longrightarrow> sub_toks tm toks = concat (map tok_text toks)"
  by (induction toks rule: hits.induct) simp_all

lemma re_sub_no_hits: "hits (scan False rt r True 0 s) = 0 \<Longrightarrow> re_sub rt r tm s = s"
  by (simp add: re_sub_def sub_toks_no_hits scan_text)

lemma strip_strip: "strip rt (strip rt s) = strip rt s"
proof -
  let ?P = "is_space rt"
  let ?y = "dropWhile ?P s"
  have pre: "?y = strip rt s @ rev (takeWhile ?P (rev ?y))"
    unfolding strip_def by (metis rev_append rev_rev_ident takeWhile_dropWhile_id)
  have "dropWhile ?P (strip rt s) = strip rt s"
  proof (cases "strip rt s")
    case Nil
    then show ?thesis by simp
  next
    case (Cons a as)
    with pre have "?y = a # as @ rev (takeWhile ?P (rev ?y))" by simp
    then have "hd ?y = a" "?y \<noteq> []" by (metis list.sel(1), metis list.distinct(1))
    with hd_dropWhile[of ?P s] have "\<not> ?P a" by auto
    with Cons show ?thesis by simp
  qed
  then have "strip rt (strip rt s) = rev (dropWhile ?P (rev (strip rt s)))"
    by (simp add: strip_def[of rt "strip rt s"])
  also have "\<dots> = strip rt s" by (simp add: strip_def)
  finally show ?thesis .
qed

lemma clean_no_hits:
  assumes "\<forall>r \<in> set clean_patterns. hits (scan False rt r True 0 s) = 0"
  shows "clean rt s = strip rt s"
proof -
  have 1: "re_sub rt html_tag_rx tm s = s" for tm
    by (rule re_sub_no_hits) (use assms in \<open>simp add: clean_patterns_def\<close>)
  have 2: "re_sub rt page_nopage_rx tm s = s" for tm
    by (rule re_sub_no_hits) (use assms in \<open>simp add: clean_patterns_def\<close>)
  have 3: "re_sub rt empty_par_rx tm s = s" for tm
    by (rule re_sub_no_hits) (use assms in \<open>simp add: clean_patterns_def\<close>)
  have 4: "re_sub rt hash_page_rx tm s = s" for tm
    by (rule re_sub_no_hits) (use assms in \<open>simp add: clean_patterns_def\<close>)
  have 5: "re_sub rt empty_sharh_rx tm s = s" for tm
    by (rule re_sub_no_hits) (use assms in \<open>simp add: clean_patterns_def\<close>)
  have 6: "re_sub rt subheading_rx tm s = s" for tm
    by (rule re_sub_no_hits) (use assms in \<open>simp add: clean_patterns_def\<close>)
  have 7: "re_sub rt hashiya_tag_rx tm s = s" for tm
    by (rule re_sub_no_hits) (use assms in \<open>simp add: clean_patterns_def\<close>)
  show ?thesis
    by (simp only: clean_def Let_def remove_hashiya_def 1 2 3 4 5 6 7)
qed

text \<open>
  Claim C8, as amended. Cleaning a second time changes nothing when the first pass has left
  no match of any of the seven patterns in the cleaned text: then every substitution of the
  second pass returns its input and the text is already stripped. (In general the first pass
  can leave or create new matches, for example a tag inside a tag; a later substitution can
  also create a match of an earlier pattern.)
\<close>

theorem clean_idempotent_when_no_match_left:
  assumes "\<forall>r \<in> set clean_patterns. hits (scan False rt r True 0 (clean rt t)) = 0"
  shows "clean rt (clean rt t) = clean rt t"
proof -
  have "clean rt (clean rt t) = strip rt (clean rt t)"
    by (rule clean_no_hits[OF assms])
  also have "\<dots> = clean rt t"
    by (simp add: clean_def[of rt t] Let_def strip_strip)
  finally show ?thesis .
qed


section \<open>The cleaning transform: commentary tags\<close>

lemma scan_gaps:
  "(\<And>i b. i < length pre \<Longrightarrow> ms dotall rt r b (drop i (pre @ R)) = []) \<Longrightarrow>
   scan dotall rt r bos 0 (pre @ R) = map Gap pre @ scan dotall rt r (bos \<and> pre = []) 0 R"
proof (induction pre arbitrary: bos)
  case Nil
  then show ?case by simp
next
  case (Cons p pre)
  from Cons.prems[of 0 bos] have m: "ms dotall rt r bos (p # pre @ R) = []" by simp
  have "scan dotall rt r False 0 (pre @ R) = map Gap pre @ scan dotall rt r (False \<and> pre = []) 0 R"
  proof (rule Cons.IH)
    fix i b assume "i < length pre"
    with Cons.prems[of "Suc i" b] show "ms dotall rt r b (drop i (pre @ R)) = []" by simp
  qed
  with m show ?case by simp
qed

lemma scan_skip:
  "k \<le> length s \<Longrightarrow> scan dotall rt r bos k s = scan dotall rt r (bos \<and> k = 0) 0 (drop k s)"
proof (induction k arbitrary: s bos)
  case 0
  then show ?case by simp
next
  case (Suc k)
  then obtain x xs where s: "s = x # xs" by (cases s) auto
  with Suc.prems have "k \<le> length xs" by simp
  from Suc.IH[OF this, of False] show ?case unfolding s by simp
qed

lemma sub_toks_append: "sub_toks tm (a @ b) = sub_toks tm a @ sub_toks tm b"
  by (induction tm a rule: sub_toks.induct) auto

lemma cm_ok_Dot: "cm_ok False rt Dot = (\<lambda>c. c \<noteq> 10)"
  by (rule ext) simp

lemma prefix_short:
  assumes "prefix t (A @ B)" "length t \<le> length A"
  shows "prefix t A"
proof -
  from assms(1) obtain z where "A @ B = t @ z" by (auto simp: prefix_def)
  then have "take (length t) (A @ B) = t" by simp
  with assms(2) have "t = take (length t) A" by simp
  then show ?thesis by (metis take_is_prefix)
qed

lemma ms_hashiya:
  "ms False rt hashiya_tag_rx b s =
     (if prefix hashiya_tag s
      then map (\<lambda>k. (length hashiya_tag + k, []))
             (rev [1..<Suc (length (takeWhile (\<lambda>c. c \<noteq> 10) (drop (length hashiya_tag) s)))])
      else [])"
  by (simp add: hashiya_tag_rx_def many1_def ms_Lit Let_def comp_def rev_map cm_ok_Dot del: ms.simps(1) upt_Suc cm_ok.simps)

lemma scan_hashiya_bos:
  "scan False rt hashiya_tag_rx b 0 s = scan False rt hashiya_tag_rx False 0 s"
  by (cases s) (simp_all add: ms_hashiya del: ms.simps)

lemma hashiya_tag_Cons: "hashiya_tag = 35 # tl hashiya_tag"
  by (simp add: hashiya_tag_def asc_def)

lemma scan_hashiya_line:
  assumes nolf: "LF \<notin> set (x # tail)"
      and first: "\<forall>i<length pre. \<not> prefix hashiya_tag (drop i (pre @ hashiya_tag))"
      and rest: "rest = [] \<or> hd rest = LF"
  shows "sub_toks [] (scan False rt hashiya_tag_rx bos 0 (pre @ hashiya_tag @ x # tail @ rest))
         = pre @ sub_toks [] (scan False rt hashiya_tag_rx False 0 rest)"
proof -
  let ?r = hashiya_tag_rx
  let ?R = "hashiya_tag @ x # tail @ rest"
  let ?N = "length hashiya_tag + length (x # tail)"
  have gaps: "ms False rt ?r b (drop i (pre @ ?R)) = []" if i: "i < length pre" for i b
  proof -
    have "\<not> prefix hashiya_tag (drop i (pre @ ?R))"
    proof
      assume p: "prefix hashiya_tag (drop i (pre @ ?R))"
      from i have "drop i (pre @ ?R) = drop i (pre @ hashiya_tag) @ (x # tail @ rest)" by simp
      with p have "prefix hashiya_tag (drop i (pre @ hashiya_tag) @ (x # tail @ rest))" by simp
      moreover from i have "length hashiya_tag \<le> length (drop i (pre @ hashiya_tag))" by simp
      ultimately have "prefix hashiya_tag (drop i (pre @ hashiya_tag))"
        by (rule prefix_short)
      with first i show False by simp
    qed
    then show ?thesis by (simp add: ms_hashiya del: ms.simps)
  qed
  have tw: "takeWhile (\<lambda>c. c \<noteq> 10) (x # tail @ rest) = x # tail"
  proof -
    have "takeWhile (\<lambda>c. c \<noteq> 10) ((x # tail) @ rest) = x # tail"
    proof (cases rest)
      case Nil
      with nolf show ?thesis by (auto simp: LF_def)
    next
      case (Cons a as)
      with rest have a: "a = 10" by (simp add: LF_def)
      have "takeWhile (\<lambda>c. c \<noteq> 10) ((x # tail) @ a # as) = x # tail"
        using a nolf by (auto simp: takeWhile_tail LF_def)
      with Cons show ?thesis by simp
    qed
    then show ?thesis by simp
  qed
  have dr: "drop (length hashiya_tag) ?R = x # tail @ rest" by simp
  have m: "ms False rt ?r b ?R =
             (?N, []) # map (\<lambda>k. (length hashiya_tag + k, [])) (rev [1..<Suc (length tail)])" for b
    unfolding ms_hashiya dr tw by simp
  have R: "?R = 35 # (tl hashiya_tag @ x # tail @ rest)"
    by (subst hashiya_tag_Cons) simp
  have "scan False rt ?r b 0 ?R = Hit (take ?N ?R) [] # scan False rt ?r False 0 rest" for b
  proof -
    have "scan False rt ?r b 0 ?R
          = Hit (take ?N ?R) [] # scan False rt ?r False (?N - 1) (tl hashiya_tag @ x # tail @ rest)"
      by (subst (1 2) R) (simp add: m[unfolded R] del: ms.simps)
    also have "scan False rt ?r False (?N - 1) (tl hashiya_tag @ x # tail @ rest)
          = scan False rt ?r False 0 (drop (?N - 1) (tl hashiya_tag @ x # tail @ rest))"
      by (subst scan_skip) simp_all
    also have "drop (?N - 1) (tl hashiya_tag @ x # tail @ rest) = rest"
      by (simp add: hashiya_tag_def asc_def hashiya_def)
    finally show ?thesis .
  qed
  then show ?thesis
    using scan_gaps[of pre False rt ?r ?R bos, OF gaps]
    by (simp add: sub_toks_append sub_toks_Gap)
qed

text \<open>
  Claim C9, as amended. The last substitution of \<^verbatim>\<open>clean\<close> removes a commentary tag together
  with the rest of its line only: for the first tag of a text, followed on its line by at
  least one character, everything from the tag up to the end of that line is deleted; the
  line feed and the lines below stay (and are treated in the same way).
\<close>

theorem hashiya_tag_removed_to_end_of_line:
  assumes "LF \<notin> set (x # tail)"
      and "\<forall>i<length pre. \<not> prefix hashiya_tag (drop i (pre @ hashiya_tag))"
  shows "remove_hashiya rt (pre @ hashiya_tag @ x # tail) = pre \<and>
         remove_hashiya rt (pre @ hashiya_tag @ x # tail @ LF # below)
           = pre @ LF # remove_hashiya rt below"
proof
  from scan_hashiya_line[OF assms, of "[]" rt True]
  show "remove_hashiya rt (pre @ hashiya_tag @ x # tail) = pre"
    by (simp add: remove_hashiya_def re_sub_def ms_hashiya del: ms.simps)
next
  have "\<not> prefix hashiya_tag (LF # below)"
    by (subst hashiya_tag_Cons) (simp add: LF_def)
  then have "scan False rt hashiya_tag_rx False 0 (LF # below)
        = Gap LF # scan False rt hashiya_tag_rx False 0 below"
    by (simp add: ms_hashiya del: ms.simps)
  with scan_hashiya_line[OF assms, of "LF # below" rt True]
  show "remove_hashiya rt (pre @ hashiya_tag @ x # tail @ LF # below)
           = pre @ LF # remove_hashiya rt below"
    by (simp add: remove_hashiya_def re_sub_def scan_hashiya_bos[of rt True])
qed
section \<open>Evaluating the examples\<close>

lemma ms_Lit_Nil: "ms dotall rt (Lit []) bos s = [(0, [])]"
  by simp

lemma ms_Lit_Cons: "ms dotall rt (Lit (a # l)) bos s =
  (case s of [] \<Rightarrow> [] | c # cs \<Rightarrow>
     if c = a then map (\<lambda>(n, c). (Suc n, c)) (ms dotall rt (Lit l) False cs) else [])"
  by (cases s) auto

lemma seq_step_eq: "seq_step dotall rt b bos s rs =
   concat (map (\<lambda>(n1, c1).
        map (\<lambda>(n2, c2). (n1 + n2, c2 @ c1)) (ms dotall rt b (bos \<and> n1 = 0) (drop n1 s))) rs)"
  by (induction rs) auto

lemma ms_Seq: "ms dotall rt (Seq a b) bos s = seq_step dotall rt b bos s (ms dotall rt a bos s)"
  by (simp add: seq_step_eq)

lemmas ms_eval = ms_Lit_Nil ms_Lit_Cons ms_Seq ms.simps(2,3,5-9)

lemmas rx_defs = cat.simps many_def many1_def few_def few1_def opt_def chr_def ch_def rng_def crlf_def
  html_tag_rx_def page_nopage_rx_def empty_par_rx_def hash_page_rx_def empty_sharh_rx_def
  subheading_rx_def hashiya_tag_rx_def milestone_rx_def page_rx_def sep_rx_def
  matn_rx_def shirwani_rx_def ibn_qasim_rx_def two_groups_rx_def
lemmas str_defs = asc_def LF_def CR_def hashiya_def hashiya_tag_def META_def NO_PAGE_NUMBER_def
  shirwani_def ibn_def qasim_def matn_line_def sharh_line_def scenario_doc_def scenario_body_def
  scenario_pages_def inline_body_def two_sharh_def sharh_a_def sharh_b_def
  titled_doc_def crlf_doc_def cleanable_def cleaned_def
lemmas pat_defs = tag_src_def pat_matn_def pat_shirwani_def pat_ibn_qasim_def pat_two_groups_def
lemmas run_defs = re_sub_def re_split_def re_findall_def grp_def is_word_def is_space_def is_digit_def
  strip_def clean_def remove_hashiya_def first_match_def page_no_at_def path_join_def sub_uri_def
  split_pages_def count_markers_def write_file_def name_char_def
  scenario_texts_d_def scenario_filled_def matn_only_def inline_filled_def shirwani_only_def
  renamed_texts_d_def titled_filled_def grouped_td_def Let_def prefix_code suffix_to_prefix

lemma py_classes: "uni_word py c = (1569 \<le> c \<and> c \<le> 1610)"
  "uni_space py c = (c = 133 \<or> c = 160)" "uni_digit py c = (1632 \<le> c \<and> c \<le> 1641)"
  by (simp_all add: py_def)

lemma py_parse_matn: "re_parse py pat_matn = Some matn_rx"
  by (simp add: py_def)

lemma py_parse_shirwani: "re_parse py pat_shirwani = Some shirwani_rx"
  by (simp add: py_def pat_defs str_defs)

lemma py_parse_name: "list_all name_char p \<Longrightarrow> re_parse py p = Some (name_rx p)"
proof -
  assume a: "list_all name_char p"
  have "\<not> list_all name_char pat_matn" "\<not> list_all name_char pat_shirwani"
       "\<not> list_all name_char pat_ibn_qasim" "\<not> list_all name_char pat_two_groups"
    by (simp_all add: pat_defs asc_def name_char_def)
  with a have "p \<noteq> pat_matn" "p \<noteq> pat_shirwani" "p \<noteq> pat_ibn_qasim" "p \<noteq> pat_two_groups"
    by auto
  with a show ?thesis by (simp add: py_def)
qed

lemma py_parse_two_groups: "re_parse py pat_two_groups = Some two_groups_rx"
  by (simp add: py_def pat_defs str_defs)

lemmas py_eval = py_classes py_parse_matn py_parse_shirwani

lemma scenario_raw: "files scenario_io (asc ''mix'') = Some scenario_doc"
  by (simp add: scenario_io_def asc_def)

lemma scenario_plain: "universal_newlines scenario_doc = scenario_doc"
  by (rule universal_newlines_id) (simp add: str_defs)

lemma scenario_files:
  "read_text scenario_io (asc ''mix'') = Some scenario_doc"
  "read_text scenario_io (asc ''mix'' @ asc ''.yml'') = Some (asc ''uri: mix'')"
proof -
  have "universal_newlines (asc ''uri: mix'') = asc ''uri: mix''"
    by (rule universal_newlines_id) (simp add: str_defs)
  then show "read_text scenario_io (asc ''mix'') = Some scenario_doc"
    "read_text scenario_io (asc ''mix'' @ asc ''.yml'') = Some (asc ''uri: mix'')"
    by (simp_all add: read_text_def scenario_io_def scenario_plain) (simp_all add: asc_def)
qed

lemma scenario_header: "re_split py (Lit META) scenario_doc = [[], scenario_body]"
  by (simp add: str_defs run_defs ms_eval del: ms.simps(1,4))

lemma scenario_split: "split_pages py scenario_body = scenario_pages"
  by (simp add: rx_defs str_defs run_defs py_eval ms_eval del: ms.simps(1,4))

lemma scenario_loop: "page_loop py scenario_pages [0..<length scenario_pages] scenario_texts_d
                       = Inr scenario_filled"
  by (simp add: rx_defs str_defs run_defs py_eval ms_eval del: ms.simps(1,4))

lemma scenario_fill: "fill_texts py scenario_body scenario_texts_d = Inr scenario_filled"
  by (simp add: fill_texts_def scenario_split scenario_loop)

lemma scenario_uri: "last (re_split py sep_rx (asc ''mix'')) = asc ''mix''"
  by (simp add: rx_defs str_defs run_defs ms_eval del: ms.simps(1,4))

lemma scenario_outcome:
  "fst (split_multitext py (asc ''mix'') (asc ''split'') scenario_texts_d None scenario_io)
     = Returned scenario_filled"
  unfolding split_multitext_def scenario_files scenario_header option.case list.case Let_def
    scenario_fill sum.case scenario_uri
  by (simp add: py_parse_name rx_defs str_defs run_defs ms_eval scenario_io_def split: prod.splits
           del: ms.simps(1,4))

lemma inline_split: "split_pages py inline_body = [asc ''a '', asc ''PageV01P001'', []]"
  by (simp add: rx_defs str_defs run_defs py_eval ms_eval del: ms.simps(1,4))

lemma inline_count: "count_markers py inline_body = 1"
  by (simp add: rx_defs str_defs run_defs py_eval ms_eval del: ms.simps(1,4))

lemma inline_fill: "fill_texts py inline_body matn_only = Inr inline_filled"
  unfolding fill_texts_def inline_split Let_def
  by (simp add: rx_defs str_defs run_defs py_eval ms_eval del: ms.simps(1,4))

lemma ngroups_examples: "ngroups matn_rx = 0" "ngroups shirwani_rx = 1"
  by (simp_all add: rx_defs)



lemma headless_file: "files headless_io (asc ''mix'') = Some (asc ''no header'')"
  by (simp add: headless_io_def)

lemma headless_count: "occurrences META 0 (asc ''no header'') = 0"
  by (simp add: str_defs prefix_code)

lemma scenario_count: "occurrences META 0 scenario_doc = 1"
  by (simp add: str_defs prefix_code)

lemma renamed_files:
  "read_text renamed_io (asc ''in/Ibn.Tuhfa'') = Some (META @ asc ''x'')"
  "read_text renamed_io (asc ''in/Ibn.Tuhfa'' @ asc ''.yml'') = Some (asc ''uri: Ibn.Tuhfa, was Ibn-Tuhfa'')"
proof -
  have "universal_newlines (META @ asc ''x'') = META @ asc ''x''"
    "universal_newlines (asc ''uri: Ibn.Tuhfa, was Ibn-Tuhfa'') = asc ''uri: Ibn.Tuhfa, was Ibn-Tuhfa''"
    by (rule universal_newlines_id, simp add: str_defs)+
  then show "read_text renamed_io (asc ''in/Ibn.Tuhfa'') = Some (META @ asc ''x'')"
    "read_text renamed_io (asc ''in/Ibn.Tuhfa'' @ asc ''.yml'') = Some (asc ''uri: Ibn.Tuhfa, was Ibn-Tuhfa'')"
    by (simp_all add: read_text_def renamed_io_def) (simp_all add: asc_def)
qed

lemma renamed_header: "re_split py (Lit META) (META @ asc ''x'') = [[], asc ''x'']"
  by (simp add: str_defs run_defs ms_eval del: ms.simps(1,4))

lemma renamed_fill: "fill_texts py (asc ''x'') renamed_texts_d
   = Inr [(pat_matn, \<lparr>d_fn = asc ''Ibn.Matn'', d_text = [NO_PAGE_NUMBER]\<rparr>)]"
  by (simp add: fill_texts_def rx_defs str_defs run_defs py_eval ms_eval del: ms.simps(1,4))

lemma renamed_uri: "last (re_split py sep_rx (asc ''in/Ibn.Tuhfa'')) = asc ''Ibn.Tuhfa''"
  by (simp add: rx_defs str_defs run_defs ms_eval del: ms.simps(1,4))

lemma renamed_sub:
  "sub_uri py (asc ''Ibn.Tuhfa'') (asc ''Ibn.Matn'') (asc ''uri: Ibn.Tuhfa, was Ibn-Tuhfa'')
     = Some (asc ''uri: Ibn.Matn, was Ibn.Matn'')"
  by (simp add: py_parse_name rx_defs str_defs run_defs ms_eval del: ms.simps(1,4))

lemma clean_nested_tag: "clean py (asc ''<<b>b>'') = asc ''<b>''"
  by (simp add: rx_defs str_defs run_defs py_eval ms_eval del: ms.simps(1,4))

lemma clean_tag: "clean py (asc ''<b>'') = []"
  by (simp add: rx_defs str_defs run_defs py_eval ms_eval del: ms.simps(1,4))

lemma clean_cleanable: "clean py cleanable = cleaned"
  by (simp add: rx_defs str_defs run_defs py_eval ms_eval del: ms.simps(1,4))

lemma strip_cleanable:
  "strip py cleanable = META @ [LF, LF] @ asc ''# text <b>x</b> PageV01P001'' @ [LF] @ asc ''NO_PAGE_NUMBER''"
  by (simp add: str_defs run_defs py_eval)

lemma cleaned_no_hits:
  "hits (scan False py html_tag_rx True 0 cleaned) = 0"
  "hits (scan False py page_nopage_rx True 0 cleaned) = 0"
  "hits (scan False py empty_par_rx True 0 cleaned) = 0"
  "hits (scan False py hash_page_rx True 0 cleaned) = 0"
  "hits (scan False py empty_sharh_rx True 0 cleaned) = 0"
  "hits (scan False py subheading_rx True 0 cleaned) = 0"
  "hits (scan False py hashiya_tag_rx True 0 cleaned) = 0"
  by (simp_all add: rx_defs str_defs run_defs py_eval ms_eval del: ms.simps(1,4))

lemma titled_raw: "files titled_io (asc ''mix'') = Some titled_doc"
  by (simp add: titled_io_def asc_def)

lemma crlf_raw: "files crlf_io (asc ''mix'') = Some crlf_doc"
  by (simp add: crlf_io_def asc_def)

lemma titled_read:
  "universal_newlines titled_doc = (asc ''Title'' @ [LF]) @ META @ asc ''x''"
  "universal_newlines crlf_doc = (asc ''Title'' @ [LF]) @ META @ asc ''x''"
  "universal_newlines (asc ''uri: mix'') = asc ''uri: mix''"
  by (simp_all add: str_defs)

lemma titled_files:
  "read_text titled_io (asc ''mix'') = Some ((asc ''Title'' @ [LF]) @ META @ asc ''x'')"
  "read_text titled_io (asc ''mix'' @ asc ''.yml'') = Some (asc ''uri: mix'')"
  "read_text crlf_io (asc ''mix'') = Some ((asc ''Title'' @ [LF]) @ META @ asc ''x'')"
  "read_text crlf_io (asc ''mix'' @ asc ''.yml'') = Some (asc ''uri: mix'')"
  using titled_read
  by (simp_all add: read_text_def titled_io_def crlf_io_def) (simp_all add: asc_def)

lemma titled_header:
  "re_split py (Lit META) ((asc ''Title'' @ [LF]) @ META @ asc ''x'') = [asc ''Title'' @ [LF], asc ''x'']"
  by (simp add: str_defs run_defs ms_eval del: ms.simps(1,4))

lemma titled_fill: "fill_texts py (asc ''x'') matn_only = Inr titled_filled"
  by (simp add: fill_texts_def rx_defs str_defs run_defs py_eval ms_eval del: ms.simps(1,4))

lemma titled_outcome:
  "fst (split_multitext py (asc ''mix'') (asc ''out'') matn_only None titled_io) = Returned titled_filled"
  "fst (split_multitext py (asc ''mix'') (asc ''out'') matn_only None crlf_io) = Returned titled_filled"
  unfolding split_multitext_def titled_files titled_header option.case list.case Let_def
    titled_fill sum.case scenario_uri
  by (simp_all add: py_parse_name rx_defs str_defs run_defs ms_eval titled_io_def crlf_io_def
        split: prod.splits del: ms.simps(1,4))

lemma crlf_written:
  "written (snd (split_multitext py (asc ''mix'') (asc ''out'') matn_only None crlf_io)) =
     [(asc ''out/BK1'', (asc ''Title'' @ [LF]) @ META @ [LF, LF] @ NO_PAGE_NUMBER),
      (asc ''out/BK1.yml'', asc ''uri: BK1'')]"
  unfolding split_multitext_def titled_files titled_header option.case list.case Let_def
    titled_fill sum.case scenario_uri
  by (simp add: py_parse_name rx_defs str_defs run_defs ms_eval crlf_io_def del: ms.simps(1,4))

lemma grouped_files:
  "read_text grouped_io (asc ''mix'') = Some (META @ asc ''ab'')"
proof -
  have "universal_newlines (META @ asc ''ab'') = META @ asc ''ab''"
    by (rule universal_newlines_id) (simp add: str_defs)
  then show ?thesis by (simp add: read_text_def grouped_io_def) (simp add: asc_def)
qed

lemma grouped_header: "re_split py (Lit META) (META @ asc ''ab'') = [[], asc ''ab'']"
  by (simp add: str_defs run_defs ms_eval del: ms.simps(1,4))

lemma grouped_split: "split_pages py (asc ''ab'') = [asc ''ab'']"
  by (simp add: rx_defs str_defs run_defs py_eval ms_eval del: ms.simps(1,4))

lemma grouped_parse: "re_parse py (asc ''zzz'') = Some (name_rx (asc ''zzz''))"
  by (rule py_parse_name) (simp add: asc_def name_char_def)

lemma grouped_findall:
  "re_findall True py (name_rx (asc ''zzz'')) (asc ''ab'') = []"
  "re_findall True py two_groups_rx (asc ''ab'') = [Tup [asc ''a'', asc ''b'']]"
  by (simp_all add: rx_defs str_defs run_defs py_eval ms_eval del: ms.simps(1,4))

lemma grouped_first:
  "first_match py (asc ''zzz'') (asc ''ab'') = Str []"
  "first_match py pat_two_groups (asc ''ab'') = Tup [asc ''a'', asc ''b'']"
  by (simp_all add: first_match_def grouped_parse py_parse_two_groups grouped_findall)

lemma grouped_fill: "fill_texts py (asc ''ab'') grouped_td = Inl TypeError"
proof -
  have "\<not> prefix (asc ''Page'') (asc ''ab'')" by (simp add: asc_def prefix_code)
  then show ?thesis
    unfolding fill_texts_def grouped_split Let_def
    by (simp add: grouped_td_def grouped_first)
qed

lemma scenario_content: "content_ixs scenario_pages = [0, 1, 2, 3, 4, 5, 6]"
  by (simp add: content_ixs_def str_defs prefix_code upt_rec)

lemma first_occurrence_unique:
  assumes "s = h @ m @ b" and "\<forall>i<length h. \<not> prefix m (drop i s)"
      and "s = h' @ m @ b'" and "\<forall>i<length h'. \<not> prefix m (drop i s)"
  shows "h = h' \<and> b = b'"
proof -
  have "prefix m (drop (length h) s)" "prefix m (drop (length h') s)"
    using assms(1,3) by (metis append_eq_conv_conj prefix_def)+
  with assms(2,4) have "length h = length h'" by (meson linorder_neqE_nat)
  with assms(1,3) show ?thesis by (metis append_eq_append_conv same_append_eq)
qed


section \<open>The scenario of the specification\<close>

text \<open>
  Claim C2. For the scenario document and its two descriptors the specification expects the
  output of the first descriptor to hold the header and the main text only, and the output of
  the second the header and the commentary only. The function writes something else: each of
  the three page markers begins with a line feed, so no segment starts with \<^verbatim>\<open>Page\<close>, the
  loop treats all seven segments as content and appends to both descriptors every following
  segment as if it were a page marker. Both outputs hold the whole body (the second one the
  commentary twice) and end with the sentinel.
\<close>

theorem scenario_outputs:
  "written (snd (split_multitext py (asc ''mix'') (asc ''split'') scenario_texts_d None scenario_io)) =
     [(asc ''split/BK1'', META @ [LF, LF] @ [LF, LF] @ asc ''PageV01P001'' @ [LF] @ matn_line @ [LF]
          @ asc ''PageV01P002'' @ [LF] @ sharh_line @ [LF] @ asc ''PageV01P003'' @ NO_PAGE_NUMBER),
      (asc ''split/BK1.yml'', asc ''uri: BK1''),
      (asc ''split/BK2'', META @ [LF, LF] @ [LF, LF] @ asc ''PageV01P001'' @ [LF] @ matn_line @ [LF]
          @ asc ''PageV01P002'' @ [LF] @ sharh_line @ sharh_line @ [LF] @ asc ''PageV01P003''
          @ NO_PAGE_NUMBER),
      (asc ''split/BK2.yml'', asc ''uri: BK2'')]"
  unfolding split_multitext_def scenario_files scenario_header option.case list.case Let_def
    scenario_fill sum.case scenario_uri
  by (simp add: py_parse_name rx_defs str_defs run_defs ms_eval scenario_io_def del: ms.simps(1,4))


section \<open>The metadata file\<close>

text \<open>
  Claim C7. The metadata file of a work should be the original one with the new file name
  wherever the old base name stood. Line 92 passes the old name to \<^verbatim>\<open>re.sub\<close> as a pattern,
  unescaped, so its dot matches any character: for the file \<^verbatim>\<open>in/Ibn.Tuhfa\<close> and the metadata
  \<^verbatim>\<open>uri: Ibn.Tuhfa, was Ibn-Tuhfa\<close> the function also replaces \<^verbatim>\<open>Ibn-Tuhfa\<close>, which is not the
  base name.
\<close>

theorem sidecar_pattern_replaces_other_names:
  "written (snd (split_multitext py (asc ''in/Ibn.Tuhfa'') (asc ''out'') renamed_texts_d None renamed_io)) =
     [(asc ''out/Ibn.Matn'', META @ [LF, LF] @ NO_PAGE_NUMBER),
      (asc ''out/Ibn.Matn.yml'', asc ''uri: Ibn.Matn, was Ibn.Matn'')]"
  unfolding split_multitext_def renamed_files renamed_header option.case list.case Let_def
    renamed_fill sum.case renamed_uri
  by (simp add: py_parse_name rx_defs str_defs run_defs ms_eval renamed_io_def del: ms.simps(1,4))


section \<open>Instances of the theorems\<close>

text \<open>Each theorem above that has hypotheses, used on one of the examples.\<close>

theorem marker_pairing_witness:
  "page_loop py scenario_pages [0..<length scenario_pages] scenario_texts_d = Inr scenario_filled \<and>
   0 < length scenario_texts_d \<and>
   fst (scenario_filled ! 0) = fst (scenario_texts_d ! 0) \<and>
   d_text (snd (scenario_filled ! 0)) = d_text (snd (scenario_texts_d ! 0)) @
     map (\<lambda>i. item_text (first_match py (fst (scenario_texts_d ! 0)) (scenario_pages ! i)) @
              (if Suc i < length scenario_pages then scenario_pages ! Suc i
               else LF # asc ''NO_PAGE_NUMBER'' @ [LF]))
         (filter (\<lambda>i. \<not> prefix (asc ''Page'') (scenario_pages ! i)) [0..<length scenario_pages])"
proof -
  have h: "0 < length scenario_texts_d" by (simp add: scenario_texts_d_def)
  from marker_pairing[OF scenario_loop h] scenario_loop h show ?thesis by blast
qed

theorem page_count_plus_one_witness:
  "fill_texts py inline_body matn_only = Inr inline_filled \<and>
   length (split_pages py inline_body) = 3 \<and>
   \<not> prefix (asc ''Page'') (split_pages py inline_body ! 0) \<and>
   prefix (asc ''Page'') (split_pages py inline_body ! 1) \<and>
   \<not> prefix (asc ''Page'') (split_pages py inline_body ! 2) \<and>
   0 < length matn_only \<and>
   length (d_text (snd (inline_filled ! 0))) =
     length (d_text (snd (matn_only ! 0))) + count_markers py inline_body + 1"
proof -
  have h2: "\<forall>i<length (split_pages py inline_body).
       prefix (asc ''Page'') (split_pages py inline_body ! i) = odd i"
    unfolding inline_split by (simp add: All_less_Suc asc_def prefix_code)
  have h3: "0 < length matn_only" by (simp add: matn_only_def)
  have h4: "length (split_pages py inline_body) = 3"
    "\<not> prefix (asc ''Page'') (split_pages py inline_body ! 0)"
    "prefix (asc ''Page'') (split_pages py inline_body ! 1)"
    "\<not> prefix (asc ''Page'') (split_pages py inline_body ! 2)"
    unfolding inline_split by (simp_all add: asc_def prefix_code)
  from page_count_plus_one[OF inline_fill h2 h3] inline_fill h3 h4 show ?thesis by blast
qed

theorem header_preserved_witness:
  "files titled_io (asc ''mix'') = Some titled_doc \<and>
   fst (split_multitext py (asc ''mix'') (asc ''out'') matn_only None titled_io)
     = Returned titled_filled \<and>
   titled_doc = (asc ''Title'' @ [LF]) @ META @ asc ''x'' \<and>
   CR \<notin> set (asc ''Title'' @ [LF]) \<and>
   universal_newlines (asc ''Title'' @ [LF]) = asc ''Title'' @ [LF] \<and>
   (path_join (asc ''out'') (asc ''BK1''),
    universal_newlines (asc ''Title'' @ [LF]) @ META @ [LF, LF] @ concat [NO_PAGE_NUMBER])
     \<in> set (drop (length (written titled_io))
             (written (snd (split_multitext py (asc ''mix'') (asc ''out'') matn_only None titled_io))))"
proof -
  let ?run = "split_multitext py (asc ''mix'') (asc ''out'') matn_only None titled_io"
  let ?h = "asc ''Title'' @ [LF]"
  have e: "?run = (Returned titled_filled, snd ?run)"
    using titled_outcome(1) by (metis prod.collapse)
  have cr: "CR \<notin> set ?h" by (simp add: str_defs)
  have doc: "titled_doc = ?h @ META @ asc ''x''" by (simp add: titled_doc_def)
  have first: "\<forall>i<length ?h. \<not> prefix META (drop i titled_doc)"
    by (simp add: All_less_Suc str_defs prefix_code)
  from header_preserved[OF titled_raw e] obtain h body where
    hb: "titled_doc = h @ META @ body"
        "\<forall>i<length h. \<not> prefix META (drop i titled_doc)"
        "\<forall>d \<in> set (map snd titled_filled).
           (path_join (asc ''out'') (d_fn d), universal_newlines h @ META @ [LF, LF] @ concat (d_text d))
             \<in> set (drop (length (written titled_io)) (written (snd ?run)))"
        "CR \<notin> set h \<longrightarrow> universal_newlines h = h"
    by blast
  from first_occurrence_unique[OF hb(1,2) doc first] have h: "h = ?h" ..
  from hb(3) have "(path_join (asc ''out'') (asc ''BK1''),
      universal_newlines ?h @ META @ [LF, LF] @ concat [NO_PAGE_NUMBER])
      \<in> set (drop (length (written titled_io)) (written (snd ?run)))"
    unfolding h by (simp add: titled_filled_def)
  moreover from hb(4) cr have "universal_newlines ?h = ?h" unfolding h by simp
  ultimately show ?thesis using titled_raw titled_outcome(1) cr doc by simp
qed

theorem unmatched_pattern_not_fatal_witness:
  "page_loop py scenario_pages [0..<length scenario_pages] scenario_texts_d = Inr scenario_filled \<and>
   length scenario_filled = length scenario_texts_d \<and>
   content_ixs scenario_pages = [0, 1, 2, 3, 4, 5, 6] \<and>
   re_parse py (fst (scenario_texts_d ! 1)) = Some shirwani_rx \<and>
   re_findall True py shirwani_rx (scenario_pages ! 2) = [] \<and>
   d_text (snd (scenario_filled ! 1)) ! (length (d_text (snd (scenario_texts_d ! 1))) + 2)
     = [] @ page_no_at scenario_pages (content_ixs scenario_pages ! 2)"
proof -
  have g: "\<forall>r. re_parse py k = Some r \<longrightarrow> ngroups r \<le> 1" if "k \<in> fst ` set scenario_texts_d" for k
    using that by (auto simp: scenario_texts_d_def py_parse_matn py_parse_shirwani ngroups_examples)
  have h: "\<forall>k \<in> fst ` set scenario_texts_d. \<forall>i \<in> set (content_ixs scenario_pages). \<forall>ts.
             first_match py k (scenario_pages ! i) \<noteq> Tup ts"
    using first_match_Str[OF g] by blast
  have p: "re_parse py (fst (scenario_texts_d ! 1)) = Some shirwani_rx"
    by (simp add: scenario_texts_d_def py_parse_shirwani)
  have f: "re_findall True py shirwani_rx (scenario_pages ! (content_ixs scenario_pages ! 2)) = []"
    unfolding scenario_content
    by (simp add: rx_defs str_defs run_defs py_eval ms_eval del: ms.simps(1,4))
  have j: "1 < length scenario_texts_d" by (simp add: scenario_texts_d_def)
  have n: "2 < length (content_ixs scenario_pages)" by (simp add: scenario_content)
  from unmatched_pattern_not_fatal[OF h] obtain td' where
    td: "page_loop py scenario_pages [0..<length scenario_pages] scenario_texts_d = Inr td'"
        "length td' = length scenario_texts_d"
        "\<forall>j<length scenario_texts_d. \<forall>n<length (content_ixs scenario_pages). \<forall>r.
           re_parse py (fst (scenario_texts_d ! j)) = Some r \<longrightarrow>
           re_findall True py r (scenario_pages ! (content_ixs scenario_pages ! n)) = [] \<longrightarrow>
           d_text (snd (td' ! j)) ! (length (d_text (snd (scenario_texts_d ! j))) + n)
             = [] @ page_no_at scenario_pages (content_ixs scenario_pages ! n)"
    by blast
  from td(1) scenario_loop have eq: "td' = scenario_filled" by simp
  from td(3)[rule_format, OF j n p f]
  have "d_text (snd (td' ! 1)) ! (length (d_text (snd (scenario_texts_d ! 1))) + 2)
          = [] @ page_no_at scenario_pages (content_ixs scenario_pages ! 2)" .
  moreover from f have "re_findall True py shirwani_rx (scenario_pages ! 2) = []"
    by (simp add: scenario_content)
  ultimately show ?thesis using td(2) scenario_loop p scenario_content unfolding eq by simp
qed


theorem header_marker_count_witness:
  "files headless_io (asc ''mix'') = Some (asc ''no header'') \<and>
   occurrences META 0 (asc ''no header'') \<noteq> 1 \<and>
   split_multitext py (asc ''mix'') (asc ''split'') scenario_texts_d None headless_io
     = (Raised ValueError, headless_io) \<and>
   files scenario_io (asc ''mix'') = Some scenario_doc \<and>
   occurrences META 0 scenario_doc = 1 \<and>
   universal_newlines scenario_doc = scenario_doc \<and>
   (\<exists>h b. re_split py (Lit META) scenario_doc = [h, b] \<and> scenario_doc = h @ META @ b) \<and>
   fst (split_multitext py (asc ''mix'') (asc ''split'') scenario_texts_d None scenario_io)
     \<noteq> Raised ValueError"
proof -
  have n: "occurrences META 0 (asc ''no header'') \<noteq> 1" by (simp add: headless_count)
  from header_marker_count[OF headless_file, of py "asc ''split''" scenario_texts_d None]
       header_marker_count[OF scenario_raw, of py "asc ''split''" scenario_texts_d None]
       n scenario_count headless_file scenario_raw scenario_plain
  show ?thesis by simp
qed

theorem clean_idempotent_witness:
  "clean py cleanable = cleaned \<and>
   clean py cleanable \<noteq> strip py cleanable \<and>
   hits (scan False py html_tag_rx True 0 (clean py cleanable)) = 0 \<and>
   hits (scan False py page_nopage_rx True 0 (clean py cleanable)) = 0 \<and>
   hits (scan False py empty_par_rx True 0 (clean py cleanable)) = 0 \<and>
   hits (scan False py hash_page_rx True 0 (clean py cleanable)) = 0 \<and>
   hits (scan False py empty_sharh_rx True 0 (clean py cleanable)) = 0 \<and>
   hits (scan False py subheading_rx True 0 (clean py cleanable)) = 0 \<and>
   hits (scan False py hashiya_tag_rx True 0 (clean py cleanable)) = 0 \<and>
   clean py (clean py cleanable) = clean py cleanable"
proof -
  have h: "\<forall>r \<in> set clean_patterns. hits (scan False py r True 0 (clean py cleanable)) = 0"
    unfolding clean_cleanable by (simp add: clean_patterns_def cleaned_no_hits)
  have d: "clean py cleanable \<noteq> strip py cleanable"
    unfolding clean_cleanable strip_cleanable by (simp add: str_defs)
  from clean_idempotent_when_no_match_left[OF h] d cleaned_no_hits clean_cleanable
  show ?thesis by simp
qed

theorem hashiya_tag_removed_witness:
  "LF \<notin> set (32 # shirwani) \<and>
   length (asc ''ab'') = 2 \<and>
   \<not> prefix hashiya_tag (drop 0 (asc ''ab'' @ hashiya_tag)) \<and>
   \<not> prefix hashiya_tag (drop 1 (asc ''ab'' @ hashiya_tag)) \<and>
   remove_hashiya py (asc ''ab'' @ hashiya_tag @ 32 # shirwani) = asc ''ab'' \<and>
   remove_hashiya py (asc ''ab'' @ hashiya_tag @ 32 # shirwani @ LF # asc ''cd'')
     = asc ''ab'' @ LF # remove_hashiya py (asc ''cd'')"
proof -
  have h1: "LF \<notin> set (32 # shirwani)" by (simp add: LF_def shirwani_def)
  have h2: "\<forall>i<length (asc ''ab''). \<not> prefix hashiya_tag (drop i (asc ''ab'' @ hashiya_tag))"
    by (simp add: All_less_Suc str_defs prefix_code)
  have h3: "length (asc ''ab'') = 2"
    "\<not> prefix hashiya_tag (drop 0 (asc ''ab'' @ hashiya_tag))"
    "\<not> prefix hashiya_tag (drop 1 (asc ''ab'' @ hashiya_tag))"
    by (simp_all add: str_defs prefix_code)
  from hashiya_tag_removed_to_end_of_line[OF h1 h2, of py "asc ''cd''"] h1 h3
  show ?thesis by blast
qed


section \<open>Where the specification says more than the code does\<close>

text \<open>
  Claim C1 as stated: a body with one page marker, \<^verbatim>\<open>a PageV01P001\<close>, gives every descriptor
  two fragments, one for the text before the marker and one for the (empty) text after it.
\<close>

theorem page_count_counterexample:
  "fill_texts py inline_body matn_only = Inr inline_filled \<and>
   length (d_text (snd (inline_filled ! 0))) \<noteq> count_markers py inline_body"
  by (simp add: inline_fill inline_count inline_filled_def)

text \<open>
  Claim C3 as stated: the source document \<^verbatim>\<open>Title\r\n#META#Header#End#x\<close> has the header
  \<^verbatim>\<open>Title\r\n\<close>; the output file begins with \<^verbatim>\<open>Title\n\<close> and the marker, without the carriage
  return.
\<close>

theorem header_bytes_counterexample:
  "files crlf_io (asc ''mix'') = Some (asc ''Title'' @ [CR, LF] @ META @ asc ''x'') \<and>
   fst (split_multitext py (asc ''mix'') (asc ''out'') matn_only None crlf_io) = Returned titled_filled \<and>
   written (snd (split_multitext py (asc ''mix'') (asc ''out'') matn_only None crlf_io)) =
     [(asc ''out/BK1'', (asc ''Title'' @ [LF]) @ META @ [LF, LF] @ NO_PAGE_NUMBER),
      (asc ''out/BK1.yml'', asc ''uri: BK1'')] \<and>
   \<not> prefix (asc ''Title'' @ [CR, LF] @ META) ((asc ''Title'' @ [LF]) @ META @ [LF, LF] @ NO_PAGE_NUMBER)"
proof -
  have "\<not> prefix (asc ''Title'' @ [CR, LF] @ META) ((asc ''Title'' @ [LF]) @ META @ [LF, LF] @ NO_PAGE_NUMBER)"
    by (simp add: str_defs prefix_code)
  with crlf_raw titled_outcome(2) crlf_written show ?thesis by (simp add: crlf_doc_def)
qed

text \<open>
  Claim C4 as stated: on the body \<^verbatim>\<open>ab\<close> the pattern \<^verbatim>\<open>zzz\<close> of the first descriptor has no
  match, and the run does not complete: the pattern \<^verbatim>\<open>(a)(b)\<close> of the second descriptor gives
  a tuple, and \<^verbatim>\<open>t+page_no\<close> raises \<^verbatim>\<open>TypeError\<close>.
\<close>

theorem unmatched_then_tuple_counterexample:
  "split_pages py (asc ''ab'') = [asc ''ab''] \<and>
   re_parse py (asc ''zzz'') = Some (name_rx (asc ''zzz'')) \<and>
   re_findall True py (name_rx (asc ''zzz'')) (asc ''ab'') = [] \<and>
   re_findall True py two_groups_rx (asc ''ab'') = [Tup [asc ''a'', asc ''b'']] \<and>
   page_loop py [asc ''ab''] [0..<length [asc ''ab'']] grouped_td = Inl TypeError \<and>
   fst (split_multitext py (asc ''mix'') (asc ''out'') grouped_td None grouped_io) = Raised TypeError"
proof -
  have "page_loop py [asc ''ab''] [0..<length [asc ''ab'']] grouped_td = Inl TypeError"
    using grouped_fill unfolding fill_texts_def grouped_split Let_def .
  moreover have "fst (split_multitext py (asc ''mix'') (asc ''out'') grouped_td None grouped_io) = Raised TypeError"
    unfolding split_multitext_def grouped_files grouped_header option.case list.case Let_def
      grouped_fill sum.case by simp
  ultimately show ?thesis using grouped_split grouped_parse grouped_findall by simp
qed

text \<open>
  Claim C8 as stated: cleaning \<^verbatim>\<open><<b>b>\<close> gives \<^verbatim>\<open><b>\<close>, and cleaning that gives the empty
  string.
\<close>

theorem clean_twice_counterexample:
  "clean py (clean py (asc ''<<b>b>'')) \<noteq> clean py (asc ''<<b>b>'')"
  unfolding clean_nested_tag clean_tag by (simp add: asc_def)

text \<open>
  Claim C9 as stated: of a commentary line followed by the line \<^verbatim>\<open>abc\<close>, cleaning keeps
  \<^verbatim>\<open>abc\<close>; the tag does not take the rest of the text with it.
\<close>

theorem hashiya_line_counterexample:
  "clean py (sharh_line @ [LF] @ asc ''abc'') = asc ''abc''"
  by (simp add: rx_defs str_defs run_defs py_eval ms_eval del: ms.simps(1,4))


end
